theory Spec2Isabelle
  imports Main "HOL-Library.Word" "HOL-Library.Sublist"
begin

section \<open>Data model\<close>

text \<open>
  The program is \<^verbatim>\<open>thames.go\<close> in its later revision (the one with \<^verbatim>\<open>downloadFile\<close>,
  \<^verbatim>\<open>assetUrl\<close> and the \<^verbatim>\<open>-d\<close> flag). A \<^verbatim>\<open>sound\<close> is the Go struct of the same name.
\<close>

type_synonym byte = "8 word"

record sound =
  descr :: string
  fname :: string
  fpath :: string
  query :: string
  secs :: int

text \<open>
  Go errors as values. \<^verbatim>\<open>os.IsNotExist\<close> recognises \<open>ErrNotExist\<close>; \<open>ErrResponse url code\<close>
  is the error \<^verbatim>\<open>fmt.Errorf("Response from %s is %d", url, resp.StatusCode)\<close>; every other
  error (transport, permission, disk) is \<open>ErrOther\<close> with its message.
\<close>

datatype err = ErrNotExist | ErrResponse string nat | ErrOther string

definition os_IsNotExist :: "err \<Rightarrow> bool" where
  "os_IsNotExist e = (e = ErrNotExist)"

subsection \<open>The world outside the process: file system and remote asset source\<close>

text \<open>
  An HTTP response has a status code and a body; \<open>body_fault\<close> is a transport error that
  surfaces after the bytes of \<open>body\<close> have been read (a connection cut short).
\<close>

record http_response =
  status :: nat
  body :: "byte list"
  body_fault :: "err option"

text \<open>
  \<open>files\<close> maps a path to the content of the file there; \<open>stat_fault\<close>, \<open>create_fault\<close> give
  the paths where \<^verbatim>\<open>os.Stat\<close> and \<^verbatim>\<open>os.Create\<close> fail, and with which error;
  \<open>write_limit\<close> gives, for a path, how many bytes the device accepts before a write
  to that file fails; \<open>http\<close> is the answer of \<^verbatim>\<open>http.Get\<close> for a URL.
\<close>

record world =
  files :: "string \<rightharpoonup> byte list"
  stat_fault :: "string \<rightharpoonup> err"
  create_fault :: "string \<rightharpoonup> err"
  write_limit :: "string \<rightharpoonup> nat"
  http :: "string \<Rightarrow> err + http_response"

definition os_Stat :: "world \<Rightarrow> string \<Rightarrow> err option" where
  "os_Stat w p =
     (case stat_fault w p of
        Some e \<Rightarrow> Some e
      | None \<Rightarrow> (case files w p of Some _ \<Rightarrow> None | None \<Rightarrow> Some ErrNotExist))"

text \<open>\<^verbatim>\<open>os.Create\<close> creates the file or truncates it: on success the file is there and empty.\<close>

definition os_Create :: "world \<Rightarrow> string \<Rightarrow> err + world" where
  "os_Create w p =
     (case create_fault w p of
        Some e \<Rightarrow> Inl e
      | None \<Rightarrow> Inr (w\<lparr>files := (files w)(p \<mapsto> [])\<rparr>))"

text \<open>
  \<^verbatim>\<open>io.Copy(fout, resp.Body)\<close> appends what it can read to the file until the body
  ends, a read fails or a write fails; the bytes written before a failure stay in the file.
\<close>

definition io_Copy :: "world \<Rightarrow> string \<Rightarrow> http_response \<Rightarrow> world \<times> err option" where
  "io_Copy w p resp =
     (let n = (case write_limit w p of
                 None \<Rightarrow> length (body resp)
               | Some k \<Rightarrow> min k (length (body resp)));
          old = (case files w p of None \<Rightarrow> [] | Some bs \<Rightarrow> bs)
      in (w\<lparr>files := (files w)(p \<mapsto> old @ take n (body resp))\<rparr>,
          if n < length (body resp) then Some (ErrOther ''write failed'')
          else body_fault resp))"

section \<open>Paths, cache check and fetch\<close>

text \<open>
  The flags and the two collaborators the program is linked against: \<open>pathJoin\<close> stands
  for \<^verbatim>\<open>filepath.Join\<close> of the Go library, \<open>db\<close> for the prepared statement
  \<^verbatim>\<open>SELECT location, description, secs ... MATCH ? ORDER BY RANDOM() LIMIT ?\<close>.
  A query either fails (\<open>QueryErr\<close>) or yields rows; a row is \<open>Inl e\<close> when
  \<^verbatim>\<open>rows.Scan\<close> fails on it, and the last component is what \<^verbatim>\<open>rows.Err()\<close> reports
  after the last row.
\<close>

type_synonym row = "err + (string \<times> string \<times> int)"

datatype qresult = QueryErr err | QueryRows "row list" "err option"

record conf =
  soundsDir :: string
  pathJoin :: "string \<Rightarrow> string \<Rightarrow> string"
  nsounds :: int
  onlyQuery :: bool
  onlyDownload :: bool
  shuffle :: bool
  mix :: bool
  args :: "string list"
  db :: "string \<Rightarrow> int \<Rightarrow> qresult"

definition AssetsRoot :: string where
  "AssetsRoot = ''http://bbcsfx.acropolis.org.uk/assets/''"

definition PlayerChannelSize :: nat where
  "PlayerChannelSize = 30"

definition assetUrl :: "string \<Rightarrow> string" where
  "assetUrl asset = AssetsRoot @ asset"

definition soundPath :: "conf \<Rightarrow> string \<Rightarrow> string" where
  "soundPath cf fn = pathJoin cf (soundsDir cf) fn"

definition fileExists :: "world \<Rightarrow> string \<Rightarrow> bool \<times> err option" where
  "fileExists w fp =
     (case os_Stat w fp of
        None \<Rightarrow> (True, None)
      | Some e \<Rightarrow> if \<not> os_IsNotExist e then (False, Some e) else (False, None))"

definition downloadFile :: "world \<Rightarrow> string \<Rightarrow> string \<Rightarrow> world \<times> err option" where
  "downloadFile w fp url =
     (case http w url of
        Inl e \<Rightarrow> (w, Some e)
      | Inr resp \<Rightarrow>
          if status resp \<noteq> 200 then (w, Some (ErrResponse url (status resp)))
          else (case os_Create w fp of
                  Inl e \<Rightarrow> (w, Some e)
                | Inr w1 \<Rightarrow> io_Copy w1 fp resp))"

text \<open>
  The log lines and other observable events of a run, in the order they happen.
  \<open>EvCached\<close>, \<open>EvFetch\<close> are the downloader's log lines \<^verbatim>\<open>Cached:\<close> and \<^verbatim>\<open>Fetch:\<close>
  (the latter is written immediately before \<^verbatim>\<open>downloadFile\<close> is called), \<open>EvDropped\<close> its
  line \<^verbatim>\<open>Error:Download\<close>, \<open>EvQueued c s\<close> the completed send of \<open>s\<close> on channel \<open>c\<close>,
  \<open>EvPlaying c s\<close> the line \<^verbatim>\<open>Playing:\<close> of a player that took \<open>s\<close> from channel \<open>c\<close>; in the preview mode \<open>EvSpawn\<close> is the
  start of a printing goroutine, \<open>EvReceived k s\<close> the receipt of \<open>s\<close> by the \<open>k\<close>-th of them
  and \<open>EvPrint\<close> a line on standard output.
\<close>

datatype panic =
  PanicNilRouter | PanicCloseOfNilChannel | PanicCloseOfClosedChannel
  | PanicSendOnClosedChannel

datatype event =
  EvQuery string
  | EvIntake sound
  | EvCached sound
  | EvFetch sound
  | EvDropped sound err
  | EvQueued nat sound
  | EvRouterClose
  | EvPlaying nat sound
  | EvSpawn
  | EvReceived nat sound
  | EvPrint string
  | EvFatal err
  | EvPanic panic

text \<open>
  The body of the downloader's loop up to its second \<^verbatim>\<open>if err == nil\<close>: the cache check
  and, on a miss, the fetch. It returns the world after it, the lines logged, and \<^verbatim>\<open>err\<close>.
\<close>

definition downloader_item :: "conf \<Rightarrow> world \<Rightarrow> sound \<Rightarrow> world \<times> event list \<times> err option" where
  "downloader_item cf w s =
     (case fileExists w (soundPath cf (fname s)) of
        (exists, e) \<Rightarrow>
          if e = None then
            (if exists then (w, [EvCached s], None)
             else (case downloadFile w (soundPath cf (fname s)) (assetUrl (fname s)) of
                     (w', e') \<Rightarrow> (w', [EvFetch s], e')))
          else (w, [], e))"

section \<open>Channels and the players' routers\<close>

text \<open>
  The buffered channels \<^verbatim>\<open>make(chan sound, PlayerChannelSize)\<close> live in a heap, a list
  indexed by the channel's identity. \<^verbatim>\<open>close\<close> of a closed channel panics, as does a send
  on a closed channel.
\<close>

record chan =
  cbuf :: "sound list"
  cclosed :: bool

definition make_chan :: chan where
  "make_chan = \<lparr>cbuf = [], cclosed = False\<rparr>"

definition chan_close :: "chan list \<Rightarrow> nat \<Rightarrow> panic + chan list" where
  "chan_close chs c =
     (if length chs \<le> c then Inl PanicCloseOfNilChannel
      else if cclosed (chs ! c) then Inl PanicCloseOfClosedChannel
      else Inr (chs[c := (chs ! c)\<lparr>cclosed := True\<rparr>]))"

text \<open>
  The interface \<^verbatim>\<open>playersRouter\<close> with its two implementations; \<open>NilRouter\<close> is the zero
  value of the interface variable. The map \<^verbatim>\<open>routes\<close> of the \<^verbatim>\<open>multiPlayersRouter\<close> is an
  association list in order of insertion. Each method runs under the router's mutex (or
  reads an immutable field), hence atomically.
\<close>

datatype router =
  NilRouter
  | SinglePlayersRouter nat
  | MultiPlayersRouter "(string \<times> nat) list"

definition newSinglePlayersRouter :: "chan list \<Rightarrow> router \<times> chan list" where
  "newSinglePlayersRouter chs = (SinglePlayersRouter (length chs), chs @ [make_chan])"

definition newMultiPlayersRouter :: "chan list \<Rightarrow> router \<times> chan list" where
  "newMultiPlayersRouter chs = (MultiPlayersRouter [], chs)"

definition singlePlayersRouter_route :: "nat \<Rightarrow> string \<Rightarrow> nat" where
  "singlePlayersRouter_route c q = c"

definition multiPlayersRouter_route ::
  "(string \<times> nat) list \<Rightarrow> chan list \<Rightarrow> string \<Rightarrow> nat \<times> (string \<times> nat) list \<times> chan list" where
  "multiPlayersRouter_route routes chs q =
     (case map_of routes q of
        Some c \<Rightarrow> (c, routes, chs)
      | None \<Rightarrow> (length chs, routes @ [(q, length chs)], chs @ [make_chan]))"

fun route :: "router \<Rightarrow> chan list \<Rightarrow> string \<Rightarrow> panic + (nat \<times> router \<times> chan list)" where
  "route NilRouter chs q = Inl PanicNilRouter"
| "route (SinglePlayersRouter c) chs q =
     Inr (singlePlayersRouter_route c q, SinglePlayersRouter c, chs)"
| "route (MultiPlayersRouter routes) chs q =
     (case multiPlayersRouter_route routes chs q of
        (c, routes', chs') \<Rightarrow> Inr (c, MultiPlayersRouter routes', chs'))"

definition singlePlayersRouter_close :: "nat \<Rightarrow> chan list \<Rightarrow> panic + chan list" where
  "singlePlayersRouter_close c chs = chan_close chs c"

text \<open>\<^verbatim>\<open>for _, c := range r.routes { close(c) }\<close>, over the channels in the order given.\<close>

fun close_all :: "nat list \<Rightarrow> chan list \<Rightarrow> panic + chan list" where
  "close_all [] chs = Inr chs"
| "close_all (c # cs) chs =
     (case chan_close chs c of Inl p \<Rightarrow> Inl p | Inr chs' \<Rightarrow> close_all cs chs')"

definition multiPlayersRouter_close :: "(string \<times> nat) list \<Rightarrow> chan list \<Rightarrow> panic + chan list" where
  "multiPlayersRouter_close routes chs = close_all (map snd routes) chs"

fun router_close :: "router \<Rightarrow> chan list \<Rightarrow> panic + chan list" where
  "router_close NilRouter chs = Inl PanicNilRouter"
| "router_close (SinglePlayersRouter c) chs = singlePlayersRouter_close c chs"
| "router_close (MultiPlayersRouter routes) chs = multiPlayersRouter_close routes chs"

section \<open>The catalog query source\<close>

text \<open>
  What a goroutine does next is the head of its script, a list of actions. \<open>ASend out s\<close>
  is the send \<^verbatim>\<open>out <- snd\<close> on an unbuffered channel, which completes when the receiver
  takes the value; \<open>out\<close> is \<^verbatim>\<open>downloadCh\<close> or the channel of the \<open>k\<close>-th printing goroutine
  of the preview mode. \<open>AFatal\<close> is \<^verbatim>\<open>log.Fatal\<close>, \<open>ASpawn\<close> the \<^verbatim>\<open>go func()\<close> of the preview
  loop, \<open>AExit\<close> its \<^verbatim>\<open>os.Exit(0)\<close>.
\<close>

datatype outchan = DownloadCh | PrinterCh nat

datatype action =
  AQuery string
  | ASend outchan sound
  | AFatal err
  | ASpawn
  | AExit

fun scan_rows :: "conf \<Rightarrow> string \<Rightarrow> outchan \<Rightarrow> row list \<Rightarrow> action list" where
  "scan_rows cf q out [] = []"
| "scan_rows cf q out (Inl e # rs) = [AFatal e]"
| "scan_rows cf q out (Inr (loc, d, sc) # rs) =
     ASend out \<lparr>descr = d, fname = loc, fpath = soundPath cf loc, query = q, secs = sc\<rparr>
       # scan_rows cf q out rs"

definition queryDatabase :: "conf \<Rightarrow> string \<Rightarrow> outchan \<Rightarrow> action list" where
  "queryDatabase cf q out =
     AQuery q #
     (case db cf q (nsounds cf) of
        QueryErr e \<Rightarrow> [AFatal e]
      | QueryRows rows e \<Rightarrow>
          scan_rows cf q out rows @ (case e of None \<Rightarrow> [] | Some e' \<Rightarrow> [AFatal e']))"

section \<open>The pipeline of \<^verbatim>\<open>main\<close>\<close>

text \<open>
  The downloader goroutine is not started (preview mode), waits at \<^verbatim>\<open>range in\<close>, holds an
  item it has received, is about to send an item it has resolved, or has returned.
\<close>

datatype dstate = DNotStarted | DIdle | DHolding sound | DSending sound | DDone

text \<open>
  A player goroutine: the key it asks the router for, whether it is the mock player of
  \<^verbatim>\<open>-d\<close>, the channel \<^verbatim>\<open>router.route(q)\<close> returned once it has called it, and whether its
  \<^verbatim>\<open>range in\<close> loop has ended.
\<close>

record player =
  pkey :: string
  pmock :: bool
  pchan :: "nat option"
  pdone :: bool

record config =
  producers :: "action list list"
  printers :: "sound option list"
  in_closed :: bool
  dl :: dstate
  world :: world
  router :: router
  chans :: "chan list"
  players :: "player list"
  halted :: "nat option"
  trace :: "event list"

definition new_player :: "bool \<Rightarrow> string \<Rightarrow> player" where
  "new_player mock q = \<lparr>pkey = q, pmock = mock, pchan = None, pdone = False\<rparr>"

text \<open>
  With \<^verbatim>\<open>--query\<close>, \<^verbatim>\<open>main\<close> runs the preview loop itself: for the \<open>k\<close>-th argument it makes a
  channel, starts a printing goroutine and calls \<^verbatim>\<open>queryDatabase\<close> on that channel; then
  \<^verbatim>\<open>os.Exit(0)\<close>.
\<close>

definition preview_script :: "conf \<Rightarrow> action list" where
  "preview_script cf =
     concat (map (\<lambda>(k, q). ASpawn # queryDatabase cf q (PrinterCh k)) (enumerate 0 (args cf)))
     @ [AExit]"

text \<open>
  Otherwise the inquirers: one goroutine per argument with \<^verbatim>\<open>--shuffle\<close> or \<^verbatim>\<open>--mix\<close>, else one
  goroutine that runs the queries one after the other.
\<close>

definition inquirers :: "conf \<Rightarrow> action list list" where
  "inquirers cf =
     (if shuffle cf \<or> mix cf then map (\<lambda>q. queryDatabase cf q DownloadCh) (args cf)
      else [concat (map (\<lambda>q. queryDatabase cf q DownloadCh) (args cf))])"

definition launch_players :: "conf \<Rightarrow> player list" where
  "launch_players cf =
     (if onlyDownload cf then [new_player True []]
      else if \<not> mix cf then [new_player False []]
      else map (new_player False) (args cf))"

text \<open>
  The configuration in which \<^verbatim>\<open>main\<close> starts its goroutines. What \<^verbatim>\<open>main\<close> does before
  (\<^verbatim>\<open>prepareWorkDirectory\<close>, opening the database and preparing the statement, each of which
  may end the process with \<^verbatim>\<open>log.Fatal\<close>) is outside the model: the prepared statement is
  the parameter \<open>db\<close>. Likewise the rendering of a sound by the player, whose result only
  decides a line of the log.
\<close>

definition init :: "conf \<Rightarrow> world \<Rightarrow> config" where
  "init cf w =
     (if onlyQuery cf then
        \<lparr>producers = [preview_script cf], printers = [], in_closed = False, dl = DNotStarted,
         world = w, router = NilRouter, chans = [], players = [], halted = None, trace = []\<rparr>
      else
        (case (if mix cf then newMultiPlayersRouter [] else newSinglePlayersRouter []) of
           (r, chs) \<Rightarrow>
             \<lparr>producers = inquirers cf, printers = [], in_closed = False, dl = DIdle,
              world = w, router = r, chans = chs, players = launch_players cf,
              halted = None, trace = []\<rparr>))"

text \<open>The line the printing goroutine of the preview mode writes for an item.\<close>

definition preview_line :: "world \<Rightarrow> sound \<Rightarrow> string" where
  "preview_line w s =
     (if os_Stat w (fpath s) = None then descr s @ '' '' @ fpath s @ [CHR 0x0A]
      else descr s @ '' '' @ assetUrl (fname s) @ [CHR 0x0A])"

subsection \<open>Steps\<close>

text \<open>
  A run is a sequence of atomic steps, each named by a label that says which goroutine
  moves; a step that is not enabled (a blocked send or receive, a goroutine that has
  returned) yields \<open>None\<close>. Exit codes: 0 for \<^verbatim>\<open>os.Exit(0)\<close> and a return of \<^verbatim>\<open>main\<close>,
  1 for \<^verbatim>\<open>log.Fatal\<close>, 2 for a panic.
\<close>

datatype label =
  LProd nat
  | LCloseIntake
  | LResolve
  | LSend
  | LDlClose
  | LPlayerRoute nat
  | LPlayerRecv nat
  | LPlayerEnd nat
  | LMainExit
  | LPrint nat

definition pop :: "nat \<Rightarrow> config \<Rightarrow> config" where
  "pop i c = c\<lparr>producers := (producers c)[i := tl (producers c ! i)]\<rparr>"

definition emit :: "event list \<Rightarrow> config \<Rightarrow> config" where
  "emit evs c = c\<lparr>trace := trace c @ evs\<rparr>"

fun exec_action :: "nat \<Rightarrow> action \<Rightarrow> config \<Rightarrow> config option" where
  "exec_action i (AQuery q) c = Some (emit [EvQuery q] (pop i c))"
| "exec_action i (AFatal e) c = Some (emit [EvFatal e] (c\<lparr>halted := Some 1\<rparr>))"
| "exec_action i ASpawn c = Some (emit [EvSpawn] (pop i (c\<lparr>printers := printers c @ [None]\<rparr>)))"
| "exec_action i AExit c = Some (c\<lparr>halted := Some 0\<rparr>)"
| "exec_action i (ASend DownloadCh s) c =
     (if dl c = DIdle then Some (emit [EvIntake s] (pop i (c\<lparr>dl := DHolding s\<rparr>))) else None)"
| "exec_action i (ASend (PrinterCh k) s) c =
     (if k < length (printers c) \<and> printers c ! k = None
      then Some (emit [EvReceived k s] (pop i (c\<lparr>printers := (printers c)[k := Some s]\<rparr>)))
      else None)"

definition exec_prod :: "nat \<Rightarrow> config \<Rightarrow> config option" where
  "exec_prod i c =
     (if i < length (producers c) then
        (case producers c ! i of [] \<Rightarrow> None | a # rest \<Rightarrow> exec_action i a c)
      else None)"

text \<open>\<^verbatim>\<open>close(downloadCh)\<close>, once every inquirer has returned.\<close>

definition exec_close_intake :: "conf \<Rightarrow> config \<Rightarrow> config option" where
  "exec_close_intake cf c =
     (if \<not> onlyQuery cf \<and> \<not> in_closed c \<and> list_all (\<lambda>p. p = []) (producers c)
      then Some (c\<lparr>in_closed := True\<rparr>) else None)"

text \<open>The downloader: cache check and fetch of the item it holds.\<close>

definition exec_resolve :: "conf \<Rightarrow> config \<Rightarrow> config option" where
  "exec_resolve cf c =
     (case dl c of
        DHolding s \<Rightarrow>
          (case downloader_item cf (world c) s of
             (w', evs, None) \<Rightarrow> Some (emit evs (c\<lparr>world := w', dl := DSending s\<rparr>))
           | (w', evs, Some e) \<Rightarrow>
               Some (emit (evs @ [EvDropped s e]) (c\<lparr>world := w', dl := DIdle\<rparr>)))
      | _ \<Rightarrow> None)"

text \<open>
  The downloader: \<^verbatim>\<open>router.route(snd.query) <- snd\<close>. The send blocks while the buffer of
  the channel is full.
\<close>

definition exec_send :: "config \<Rightarrow> config option" where
  "exec_send c =
     (case dl c of
        DSending s \<Rightarrow>
          (case route (router c) (chans c) (query s) of
             Inl p \<Rightarrow> Some (emit [EvPanic p] (c\<lparr>halted := Some 2\<rparr>))
           | Inr (cid, r', chs') \<Rightarrow>
               if cclosed (chs' ! cid)
               then Some (emit [EvPanic PanicSendOnClosedChannel] (c\<lparr>halted := Some 2\<rparr>))
               else if length (cbuf (chs' ! cid)) < PlayerChannelSize
               then Some (emit [EvQueued cid s]
                      (c\<lparr>router := r',
                         chans := chs'[cid := (chs' ! cid)\<lparr>cbuf := cbuf (chs' ! cid) @ [s]\<rparr>],
                         dl := DIdle\<rparr>))
               else None)
      | _ \<Rightarrow> None)"

text \<open>The downloader: the end of \<^verbatim>\<open>range in\<close> and the deferred \<^verbatim>\<open>router.close()\<close>.\<close>

definition exec_dlclose :: "config \<Rightarrow> config option" where
  "exec_dlclose c =
     (if dl c = DIdle \<and> in_closed c then
        (case router_close (router c) (chans c) of
           Inl p \<Rightarrow> Some (emit [EvPanic p] (c\<lparr>halted := Some 2\<rparr>))
         | Inr chs' \<Rightarrow> Some (emit [EvRouterClose] (c\<lparr>chans := chs', dl := DDone\<rparr>)))
      else None)"

text \<open>A player: its call \<^verbatim>\<open>router.route(q)\<close>, a receive from its channel, the end of its loop.\<close>

definition exec_player_route :: "nat \<Rightarrow> config \<Rightarrow> config option" where
  "exec_player_route j c =
     (if j < length (players c) \<and> pchan (players c ! j) = None then
        (case route (router c) (chans c) (pkey (players c ! j)) of
           Inl p \<Rightarrow> Some (emit [EvPanic p] (c\<lparr>halted := Some 2\<rparr>))
         | Inr (cid, r', chs') \<Rightarrow>
             Some (c\<lparr>router := r', chans := chs',
                     players := (players c)[j := (players c ! j)\<lparr>pchan := Some cid\<rparr>]\<rparr>))
      else None)"

definition exec_player_recv :: "nat \<Rightarrow> config \<Rightarrow> config option" where
  "exec_player_recv j c =
     (if j < length (players c) \<and> \<not> pdone (players c ! j) then
        (case pchan (players c ! j) of
           None \<Rightarrow> None
         | Some cid \<Rightarrow>
             if cid < length (chans c) then
               (case cbuf (chans c ! cid) of
                  [] \<Rightarrow> None
                | s # b \<Rightarrow>
                    Some (emit [EvPlaying cid s]
                      (c\<lparr>chans := (chans c)[cid := (chans c ! cid)\<lparr>cbuf := b\<rparr>]\<rparr>)))
             else None)
      else None)"

definition exec_player_end :: "nat \<Rightarrow> config \<Rightarrow> config option" where
  "exec_player_end j c =
     (if j < length (players c) \<and> \<not> pdone (players c ! j) then
        (case pchan (players c ! j) of
           None \<Rightarrow> None
         | Some cid \<Rightarrow>
             if cid < length (chans c) \<and> cbuf (chans c ! cid) = [] \<and> cclosed (chans c ! cid)
             then Some (c\<lparr>players := (players c)[j := (players c ! j)\<lparr>pdone := True\<rparr>]\<rparr>)
             else None)
      else None)"

text \<open>\<^verbatim>\<open>wg.Wait()\<close> returns once the downloader, the inquirers and every player are done.\<close>

definition exec_main_exit :: "conf \<Rightarrow> config \<Rightarrow> config option" where
  "exec_main_exit cf c =
     (if \<not> onlyQuery cf \<and> dl c = DDone \<and> in_closed c \<and> list_all pdone (players c)
      then Some (c\<lparr>halted := Some 0\<rparr>) else None)"

text \<open>The \<open>k\<close>-th printing goroutine of the preview mode writes the line of the item it holds.\<close>

definition exec_print :: "nat \<Rightarrow> config \<Rightarrow> config option" where
  "exec_print k c =
     (if k < length (printers c) then
        (case printers c ! k of
           None \<Rightarrow> None
         | Some s \<Rightarrow>
             Some (emit [EvPrint (preview_line (world c) s)]
                    (c\<lparr>printers := (printers c)[k := None]\<rparr>)))
      else None)"

fun exec_label :: "conf \<Rightarrow> label \<Rightarrow> config \<Rightarrow> config option" where
  "exec_label cf (LProd i) c = exec_prod i c"
| "exec_label cf LCloseIntake c = exec_close_intake cf c"
| "exec_label cf LResolve c = exec_resolve cf c"
| "exec_label cf LSend c = exec_send c"
| "exec_label cf LDlClose c = exec_dlclose c"
| "exec_label cf (LPlayerRoute j) c = exec_player_route j c"
| "exec_label cf (LPlayerRecv j) c = exec_player_recv j c"
| "exec_label cf (LPlayerEnd j) c = exec_player_end j c"
| "exec_label cf LMainExit c = exec_main_exit cf c"
| "exec_label cf (LPrint k) c = exec_print k c"

text \<open>Nothing moves once the process has exited.\<close>

definition exec :: "conf \<Rightarrow> label \<Rightarrow> config \<Rightarrow> config option" where
  "exec cf l c = (if halted c = None then exec_label cf l c else None)"

fun run :: "conf \<Rightarrow> config \<Rightarrow> label list \<Rightarrow> config option" where
  "run cf c [] = Some c"
| "run cf c (l # ls) = (case exec cf l c of None \<Rightarrow> None | Some c' \<Rightarrow> run cf c' ls)"

text \<open>A sequence of \<^verbatim>\<open>route\<close> calls on the \<^verbatim>\<open>multiPlayersRouter\<close>.\<close>

fun route_all ::
  "(string \<times> nat) list \<Rightarrow> chan list \<Rightarrow> string list \<Rightarrow> (string \<times> nat) list \<times> chan list" where
  "route_all routes chs [] = (routes, chs)"
| "route_all routes chs (q # qs) =
     (case multiPlayersRouter_route routes chs q of (c, routes', chs') \<Rightarrow> route_all routes' chs' qs)"

subsection \<open>Reading a trace\<close>

text \<open>
  The items taken from the shared intake, the items the downloader has decided on (sent
  to a channel or dropped), the items it has announced a fetch for, the items sent on and
  taken from a given channel, the items the printing goroutines have received, and the
  lines printed, each in the order of the trace.
\<close>

fun intake_of :: "event \<Rightarrow> sound list" where
  "intake_of (EvIntake s) = [s]"
| "intake_of _ = []"

fun outcome_of :: "event \<Rightarrow> sound list" where
  "outcome_of (EvQueued c s) = [s]"
| "outcome_of (EvDropped s e) = [s]"
| "outcome_of _ = []"

fun queued_of :: "event \<Rightarrow> sound list" where
  "queued_of (EvQueued c s) = [s]"
| "queued_of _ = []"

fun dropped_of :: "event \<Rightarrow> sound list" where
  "dropped_of (EvDropped s e) = [s]"
| "dropped_of _ = []"

fun fetch_of :: "event \<Rightarrow> sound list" where
  "fetch_of (EvFetch s) = [s]"
| "fetch_of _ = []"

fun queued_on :: "nat \<Rightarrow> event \<Rightarrow> sound list" where
  "queued_on c (EvQueued c' s) = (if c' = c then [s] else [])"
| "queued_on c _ = []"

fun played_on :: "nat \<Rightarrow> event \<Rightarrow> sound list" where
  "played_on c (EvPlaying c' s) = (if c' = c then [s] else [])"
| "played_on c _ = []"

fun received_of :: "event \<Rightarrow> sound list" where
  "received_of (EvReceived k s) = [s]"
| "received_of _ = []"

fun printed_of :: "event \<Rightarrow> string list" where
  "printed_of (EvPrint l) = [l]"
| "printed_of _ = []"

text \<open>The events of the retrieval stage, of the router and of the players.\<close>

fun is_playback :: "event \<Rightarrow> bool" where
  "is_playback (EvIntake s) = True"
| "is_playback (EvCached s) = True"
| "is_playback (EvFetch s) = True"
| "is_playback (EvDropped s e) = True"
| "is_playback (EvQueued c s) = True"
| "is_playback EvRouterClose = True"
| "is_playback (EvPlaying c s) = True"
| "is_playback _ = False"

definition intakes :: "event list \<Rightarrow> sound list" where
  "intakes tr = concat (map intake_of tr)"

definition outcomes :: "event list \<Rightarrow> sound list" where
  "outcomes tr = concat (map outcome_of tr)"

definition queued :: "event list \<Rightarrow> sound list" where
  "queued tr = concat (map queued_of tr)"

definition dropped :: "event list \<Rightarrow> sound list" where
  "dropped tr = concat (map dropped_of tr)"

definition fetches :: "event list \<Rightarrow> sound list" where
  "fetches tr = concat (map fetch_of tr)"

definition received :: "event list \<Rightarrow> sound list" where
  "received tr = concat (map received_of tr)"

definition printed :: "event list \<Rightarrow> string list" where
  "printed tr = concat (map printed_of tr)"

text \<open>The item the downloader has taken from the intake and not yet decided on.\<close>

fun inflight :: "dstate \<Rightarrow> sound list" where
  "inflight (DHolding s) = [s]"
| "inflight (DSending s) = [s]"
| "inflight _ = []"

text \<open>The actions of the inquirers that the events of a trace record.\<close>

fun acts_of :: "event \<Rightarrow> action list" where
  "acts_of (EvQuery q) = [AQuery q]"
| "acts_of (EvIntake s) = [ASend DownloadCh s]"
| "acts_of (EvReceived k s) = [ASend (PrinterCh k) s]"
| "acts_of EvSpawn = [ASpawn]"
| "acts_of _ = []"

definition acts :: "event list \<Rightarrow> action list" where
  "acts tr = concat (map acts_of tr)"

text \<open>
  The items a script sends, and the items the catalog query sources create in a run, in
  the order of the arguments.
\<close>

fun sound_of :: "action \<Rightarrow> sound list" where
  "sound_of (ASend out s) = [s]"
| "sound_of _ = []"

definition sounds_of :: "action list \<Rightarrow> sound list" where
  "sounds_of as = concat (map sound_of as)"

definition created :: "conf \<Rightarrow> sound list" where
  "created cf = concat (map (\<lambda>q. sounds_of (queryDatabase cf q DownloadCh)) (args cf))"

text \<open>A router whose channels are all in the heap, no two keys sharing one.\<close>

fun wf_router :: "router \<Rightarrow> chan list \<Rightarrow> bool" where
  "wf_router NilRouter chs = True"
| "wf_router (SinglePlayersRouter c) chs = (c < length chs)"
| "wf_router (MultiPlayersRouter routes) chs =
     (list_all (\<lambda>c. c < length chs) (map snd routes) \<and> distinct (map snd routes))"

text \<open>
  What has been sent on a channel is what has been taken from it, followed by what it
  holds.
\<close>

definition fifo :: "config \<Rightarrow> bool" where
  "fifo c = (wf_router (router c) (chans c)
     \<and> (\<forall>cid. concat (map (queued_on cid) (trace c))
           = concat (map (played_on cid) (trace c))
             @ (if cid < length (chans c) then cbuf (chans c ! cid) else [])))"

text \<open>
  Every item there is in a configuration (in a script, in the downloader's hands, in a
  channel, with a printing goroutine, in an event) is one the query sources created.
\<close>

fun event_sounds :: "event \<Rightarrow> sound list" where
  "event_sounds (EvIntake s) = [s]"
| "event_sounds (EvCached s) = [s]"
| "event_sounds (EvFetch s) = [s]"
| "event_sounds (EvDropped s e) = [s]"
| "event_sounds (EvQueued c s) = [s]"
| "event_sounds (EvPlaying c s) = [s]"
| "event_sounds (EvReceived k s) = [s]"
| "event_sounds _ = []"

definition all_created :: "conf \<Rightarrow> config \<Rightarrow> bool" where
  "all_created cf c =
     ((\<forall>i < length (producers c). set (sounds_of (producers c ! i)) \<subseteq> set (created cf))
      \<and> set (inflight (dl c)) \<subseteq> set (created cf)
      \<and> (\<forall>i < length (chans c). set (cbuf (chans c ! i)) \<subseteq> set (created cf))
      \<and> (\<forall>k < length (printers c). \<forall>s. printers c ! k = Some s \<longrightarrow> s \<in> set (created cf))
      \<and> set (concat (map event_sounds (trace c))) \<subseteq> set (created cf))"

text \<open>
  The keys the router has been asked for: by the players that have made their call
  \<^verbatim>\<open>router.route(q)\<close>, and by the downloader for the items it has sent.
\<close>

definition asked :: "config \<Rightarrow> string list" where
  "asked c = map pkey (filter (\<lambda>p. pchan p \<noteq> None) (players c)) @ map query (queued (trace c))"

text \<open>
  The state of the \<^verbatim>\<open>multiPlayersRouter\<close> with \<^verbatim>\<open>--mix\<close>: one channel for each key of the
  map, the keys are the keys asked for, the players are the ones \<^verbatim>\<open>main\<close> launched, a
  player holds the channel of its key, and an item was sent on the channel of its query.
\<close>

definition mix_inv :: "conf \<Rightarrow> config \<Rightarrow> bool" where
  "mix_inv cf c =
     (\<exists>routes. router c = MultiPlayersRouter routes
        \<and> distinct (map fst routes) \<and> map snd routes = [0..<length (chans c)]
        \<and> set (map fst routes) = set (asked c)
        \<and> map pkey (players c) = map pkey (launch_players cf)
        \<and> (\<forall>j < length (players c). \<forall>cid. pchan (players c ! j) = Some cid
              \<longrightarrow> map_of routes (pkey (players c ! j)) = Some cid)
        \<and> (\<forall>cid s. EvQueued cid s \<in> set (trace c) \<longrightarrow> map_of routes (query s) = Some cid))"

text \<open>
  The items a script sends on \<^verbatim>\<open>downloadCh\<close>. With one inquirer, the actions a trace records
  and the actions still in its script are the script it began with. An item enters the
  intake only when every item that entered before has been decided on.
\<close>

fun dsound_of :: "action \<Rightarrow> sound list" where
  "dsound_of (ASend DownloadCh s) = [s]"
| "dsound_of _ = []"

definition script_inv :: "action list \<Rightarrow> config \<Rightarrow> bool" where
  "script_inv S c = (length (producers c) = 1 \<and> acts (trace c) @ (producers c ! 0) = S)"

definition intake_gate :: "event list \<Rightarrow> bool" where
  "intake_gate tr = (\<forall>pre s post. tr = pre @ EvIntake s # post \<longrightarrow> intakes pre = outcomes pre)"

text \<open>
  The items decided on are the items taken from the intake, all but at most the last one
  taken; and this at every moment of a trace.
\<close>

definition settled :: "event list \<Rightarrow> bool" where
  "settled tr = (prefix (outcomes tr) (intakes tr)
     \<and> length (intakes tr) \<le> Suc (length (outcomes tr)))"

definition always_settled :: "event list \<Rightarrow> bool" where
  "always_settled tr = list_all settled (prefixes tr)"

text \<open>
  The preview mode: no downloader, no router, no channel, no player; the world is as it
  was; every line printed is the line of a created item; and after \<^verbatim>\<open>os.Exit(0)\<close> the script
  of \<^verbatim>\<open>main\<close> is at its \<open>AExit\<close>.
\<close>

definition preview_inv :: "conf \<Rightarrow> world \<Rightarrow> config \<Rightarrow> bool" where
  "preview_inv cf w c =
     (dl c = DNotStarted \<and> router c = NilRouter \<and> chans c = [] \<and> players c = []
      \<and> world c = w
      \<and> list_all (\<lambda>e. \<not> is_playback e) (trace c)
      \<and> list_all (\<lambda>l. \<exists>s \<in> set (created cf). l = preview_line w s) (printed (trace c))
      \<and> (halted c = Some 0 \<longrightarrow> (\<exists>rest. producers c ! 0 = AExit # rest)))"

text \<open>
  No panic has happened; the channels are open until the downloader has returned, and the
  downloader returns by the one call of \<^verbatim>\<open>router.close()\<close>, after the intake was closed.
\<close>

definition safe :: "config \<Rightarrow> bool" where
  "safe c =
     (wf_router (router c) (chans c)
      \<and> (router c = NilRouter \<longrightarrow> players c = [] \<and> dl c = DNotStarted)
      \<and> (dl c \<noteq> DDone \<longrightarrow>
            (\<forall>i < length (chans c). \<not> cclosed (chans c ! i)) \<and> EvRouterClose \<notin> set (trace c))
      \<and> (dl c = DDone \<longrightarrow>
            in_closed c \<and> length (filter (\<lambda>e. e = EvRouterClose) (trace c)) = 1)
      \<and> halted c \<noteq> Some 2 \<and> (\<forall>p. EvPanic p \<notin> set (trace c)))"

text \<open>
  The items the printing goroutines of the preview mode have received and not yet printed.
\<close>

fun held :: "sound option \<Rightarrow> nat" where
  "held None = 0"
| "held (Some s) = 1"

definition unprinted :: "config \<Rightarrow> nat" where
  "unprinted c = sum_list (map held (printers c))"

text \<open>
  The items dropped, each with the error logged. A retrieval fails with the error of the
  cache check, when that is not the absence of the file, or else with the error of the
  fetch; neither depends on the files there are. The downloader changes the world only by
  adding files; and in every configuration an item that it has sent, or is about to send,
  has its file in the cache, and an item that it has dropped had a failed retrieval.
\<close>

fun drop_of :: "event \<Rightarrow> (sound \<times> err) list" where
  "drop_of (EvDropped s e) = [(s, e)]"
| "drop_of _ = []"

definition drops :: "event list \<Rightarrow> (sound \<times> err) list" where
  "drops tr = concat (map drop_of tr)"

definition stat_ok :: "world \<Rightarrow> string \<Rightarrow> bool" where
  "stat_ok w p = (case stat_fault w p of None \<Rightarrow> True | Some e \<Rightarrow> os_IsNotExist e)"

definition failed :: "conf \<Rightarrow> world \<Rightarrow> sound \<Rightarrow> err \<Rightarrow> bool" where
  "failed cf w s e =
     ((stat_fault w (soundPath cf (fname s)) = Some e \<and> \<not> os_IsNotExist e)
      \<or> (stat_ok w (soundPath cf (fname s))
          \<and> snd (downloadFile w (soundPath cf (fname s)) (assetUrl (fname s))) = Some e))"

definition same_env :: "world \<Rightarrow> world \<Rightarrow> bool" where
  "same_env w w' =
     (stat_fault w' = stat_fault w \<and> create_fault w' = create_fault w
      \<and> write_limit w' = write_limit w \<and> http w' = http w
      \<and> dom (files w) \<subseteq> dom (files w'))"

definition retrieved :: "conf \<Rightarrow> world \<Rightarrow> config \<Rightarrow> bool" where
  "retrieved cf w c =
     (same_env w (world c)
      \<and> (\<forall>s. s \<in> set (queued (trace c)) \<or> dl c = DSending s \<longrightarrow>
             files (world c) (soundPath cf (fname s)) \<noteq> None
             \<and> stat_ok w (soundPath cf (fname s)))
      \<and> (\<forall>s e. (s, e) \<in> set (drops (trace c)) \<longrightarrow> failed cf w s e))"

section \<open>Concrete inputs\<close>

text \<open>A small catalog, cache and remote source, used to evaluate the definitions.\<close>

definition ex_join :: "string \<Rightarrow> string \<Rightarrow> string" where
  "ex_join d f = d @ ''/'' @ f"

definition ex_db :: "string \<Rightarrow> int \<Rightarrow> qresult" where
  "ex_db q n =
     (if q = ''cafe'' then QueryRows [Inr (''07001.wav'', ''Cafe ambience'', 60)] None
      else if q = ''rain'' then QueryRows [Inr (''07002.wav'', ''Rain on roof'', 45)] None
      else QueryRows [] None)"

definition ex_conf :: conf where
  "ex_conf = \<lparr>soundsDir = ''/c/sounds'', pathJoin = ex_join, nsounds = 30, onlyQuery = False,
     onlyDownload = False, shuffle = False, mix = False, args = [''cafe'', ''rain''], db = ex_db\<rparr>"

definition ex_http :: "string \<Rightarrow> err + http_response" where
  "ex_http url =
     (if url = assetUrl ''07002.wav''
      then Inr \<lparr>status = 200, body = [7, 8, 9], body_fault = None\<rparr>
      else Inl (ErrOther ''no route to host''))"

definition ex_world :: world where
  "ex_world = \<lparr>files = [''/c/sounds/07001.wav'' \<mapsto> [1, 2, 3]], stat_fault = Map.empty,
     create_fault = Map.empty, write_limit = Map.empty, http = ex_http\<rparr>"

definition ex_cafe :: sound where
  "ex_cafe = \<lparr>descr = ''Cafe ambience'', fname = ''07001.wav'', fpath = ''/c/sounds/07001.wav'',
     query = ''cafe'', secs = 60\<rparr>"

definition ex_rain :: sound where
  "ex_rain = \<lparr>descr = ''Rain on roof'', fname = ''07002.wav'', fpath = ''/c/sounds/07002.wav'',
     query = ''rain'', secs = 45\<rparr>"

definition ex_world_denied :: world where
  "ex_world_denied = ex_world\<lparr>stat_fault := [''/c/sounds/07002.wav'' \<mapsto> ErrOther ''permission denied'']\<rparr>"

definition ex_world_full :: world where
  "ex_world_full = ex_world\<lparr>write_limit := [''/c/sounds/07002.wav'' \<mapsto> 1]\<rparr>"

definition ex_world_half :: world where
  "ex_world_half = ex_world_full\<lparr>files := (files ex_world)(''/c/sounds/07002.wav'' \<mapsto> [7])\<rparr>"

text \<open>A schedule of the sequential mode: the first query, its item through the downloader
and the player, then the second query.\<close>

definition ex_schedule :: "label list" where
  "ex_schedule = [LProd 0, LProd 0, LResolve, LSend, LPlayerRoute 0, LPlayerRecv 0, LProd 0]"

text \<open>
  The mix mode with a repeated term, and a schedule where two players ask for the same key
  before the downloader routes an item of the other.
\<close>

definition ex_mix :: conf where
  "ex_mix = ex_conf\<lparr>mix := True, args := [''cafe'', ''rain'', ''cafe'']\<rparr>"

definition ex_mix_schedule :: "label list" where
  "ex_mix_schedule =
     [LPlayerRoute 0, LPlayerRoute 2, LProd 1, LProd 1, LResolve, LSend, LPlayerRoute 1]"

text \<open>
  \<^verbatim>\<open>--mix\<close> with \<^verbatim>\<open>-d\<close>, and a schedule where the mock player makes its call and the item of
  each term goes through the downloader.
\<close>

definition ex_mix_d :: conf where
  "ex_mix_d = ex_conf\<lparr>onlyDownload := True, mix := True\<rparr>"

definition ex_mix_d_schedule :: "label list" where
  "ex_mix_d_schedule =
     [LPlayerRoute 0, LProd 0, LProd 0, LResolve, LSend, LProd 1, LProd 1, LResolve, LSend]"

text \<open>
  The mix mode with one term that matches nothing, the schedule where the inquirer and
  the downloader finish before the player makes its call to the router, and the
  configuration this run ends in.
\<close>

definition ex_mix_none :: conf where
  "ex_mix_none = ex_conf\<lparr>mix := True, args := [''zzz'']\<rparr>"

definition ex_late_schedule :: "label list" where
  "ex_late_schedule = [LProd 0, LCloseIntake, LDlClose, LPlayerRoute 0]"

definition ex_stuck :: config where
  "ex_stuck =
     \<lparr>producers = [[]], printers = [], in_closed = True, dl = DDone, world = ex_world,
      router = MultiPlayersRouter [(''zzz'', 0)], chans = [\<lparr>cbuf = [], cclosed = False\<rparr>],
      players = [\<lparr>pkey = ''zzz'', pmock = False, pchan = Some 0, pdone = False\<rparr>],
      halted = None, trace = [EvQuery ''zzz'', EvRouterClose]\<rparr>"

text \<open>
  The sequential schedule continued until the item of the second term enters the intake;
  and the sequential mode with a repeated term.
\<close>

definition ex_schedule_next :: "label list" where
  "ex_schedule_next = ex_schedule @ [LProd 0]"

definition ex_repeat :: conf where
  "ex_repeat = ex_conf\<lparr>args := [''cafe'', ''rain'', ''cafe'']\<rparr>"

definition ex_repeat_schedule :: "label list" where
  "ex_repeat_schedule =
     [LProd 0, LProd 0, LResolve, LSend, LProd 0, LProd 0, LResolve, LSend, LProd 0, LProd 0]"

text \<open>The preview mode, and a schedule of it that prints both items before the exit.\<close>

definition ex_preview :: conf where
  "ex_preview = ex_conf\<lparr>onlyQuery := True\<rparr>"

definition ex_preview_schedule :: "label list" where
  "ex_preview_schedule =
     [LProd 0, LProd 0, LProd 0, LPrint 0, LProd 0, LProd 0, LProd 0, LPrint 1, LProd 0]"


text \<open>
  A schedule of the preview mode in which \<^verbatim>\<open>main\<close> runs to its \<^verbatim>\<open>os.Exit(0)\<close> before a
  printing goroutine has written a line.
\<close>

definition ex_preview_early :: "label list" where
  "ex_preview_early = [LProd 0, LProd 0, LProd 0, LProd 0, LProd 0, LProd 0, LProd 0]"

text \<open>
  \<^verbatim>\<open>--mix -d -n 31\<close> with one term that matches 31 sounds or more, all of them in the cache:
  the catalog, the items of the query, the cache, and the schedule in which the mock
  player makes its call and the items go through the downloader one after the other.
  \<open>ex_fill k\<close> is the configuration when \<open>k\<close> items have been sent on the channel of the
  term, \<open>ex_full\<close> the one the run ends in.
\<close>

definition ex_loc :: "nat \<Rightarrow> string" where
  "ex_loc k = [char_of (48 + k div 10), char_of (48 + k mod 10)] @ ''.wav''"

definition ex_db_many :: "string \<Rightarrow> int \<Rightarrow> qresult" where
  "ex_db_many q n =
     (if q = ''cafe'' then QueryRows (map (\<lambda>k. Inr (ex_loc k, ''Cafe'', 60)) [0..<nat n]) None
      else QueryRows [] None)"

definition ex_item :: "nat \<Rightarrow> sound" where
  "ex_item k = \<lparr>descr = ''Cafe'', fname = ex_loc k, fpath = ''/c/sounds/'' @ ex_loc k,
     query = ''cafe'', secs = 60\<rparr>"

definition ex_many :: conf where
  "ex_many = ex_conf\<lparr>nsounds := 31, onlyDownload := True, mix := True, args := [''cafe''],
     db := ex_db_many\<rparr>"

definition ex_world_many :: world where
  "ex_world_many =
     ex_world\<lparr>files := map_of (map (\<lambda>k. (''/c/sounds/'' @ ex_loc k, [1])) [0..<31])\<rparr>"

definition ex_log :: "nat \<Rightarrow> event list" where
  "ex_log k = [EvIntake (ex_item k), EvCached (ex_item k), EvQueued 1 (ex_item k)]"

definition ex_fill :: "nat \<Rightarrow> config" where
  "ex_fill k =
     \<lparr>producers = [map (\<lambda>i. ASend DownloadCh (ex_item i)) [k..<31]], printers = [],
      in_closed = False, dl = DIdle, world = ex_world_many,
      router = MultiPlayersRouter (([], 0) # (if k = 0 then [] else [(''cafe'', 1)])),
      chans = make_chan # (if k = 0 then [] else [\<lparr>cbuf = map ex_item [0..<k], cclosed = False\<rparr>]),
      players = [\<lparr>pkey = [], pmock = True, pchan = Some 0, pdone = False\<rparr>],
      halted = None, trace = EvQuery ''cafe'' # concat (map ex_log [0..<k])\<rparr>"

definition ex_full :: config where
  "ex_full =
     (ex_fill 30)\<lparr>producers := [[]], in_closed := True, dl := DSending (ex_item 30),
       trace := trace (ex_fill 30) @ [EvIntake (ex_item 30), EvCached (ex_item 30)]\<rparr>"

definition ex_many_schedule :: "label list" where
  "ex_many_schedule =
     [LPlayerRoute 0, LProd 0] @ concat (replicate 30 [LProd 0, LResolve, LSend])
       @ [LProd 0, LResolve, LCloseIntake]"
section \<open>Basic facts\<close>

lemma run_invariant:
  assumes "run cf c0 ls = Some c" and "P c0"
    and "\<And>c l c'. P c \<Longrightarrow> exec cf l c = Some c' \<Longrightarrow> P c'"
  shows "P c"
  using assms(1,2)
proof (induction ls arbitrary: c0)
  case Nil
  then show ?case by simp
next
  case (Cons l ls)
  then show ?case using assms(3) by (auto split: option.splits)
qed

lemmas exec_defs = exec_def exec_prod_def exec_close_intake_def exec_resolve_def exec_send_def
  exec_dlclose_def exec_player_route_def exec_player_recv_def exec_player_end_def
  exec_main_exit_def exec_print_def pop_def emit_def

lemma init_fields [simp]:
  "world (init cf w) = w" "trace (init cf w) = []" "halted (init cf w) = None"
  "printers (init cf w) = []" "in_closed (init cf w) = False"
  by (auto simp: init_def split: prod.splits)

lemma init_pipeline:
  assumes "\<not> onlyQuery cf"
  shows "producers (init cf w) = inquirers cf" "dl (init cf w) = DIdle"
    "players (init cf w) = launch_players cf"
    "router (init cf w) = (if mix cf then MultiPlayersRouter [] else SinglePlayersRouter 0)"
    "chans (init cf w) = (if mix cf then [] else [make_chan])"
  using assms
  by (auto simp: init_def newMultiPlayersRouter_def newSinglePlayersRouter_def)

lemma init_preview:
  assumes "onlyQuery cf"
  shows "producers (init cf w) = [preview_script cf]" "dl (init cf w) = DNotStarted"
    "players (init cf w) = []" "router (init cf w) = NilRouter" "chans (init cf w) = []"
  using assms by (auto simp: init_def)

lemma ex_soundPath: "soundPath ex_conf f = ''/c/sounds/'' @ f"
  by (simp add: soundPath_def ex_conf_def ex_join_def)

lemma ex_conf_simps [simp]:
  "soundsDir ex_conf = ''/c/sounds''" "pathJoin ex_conf = ex_join" "nsounds ex_conf = 30"
  "onlyQuery ex_conf = False" "onlyDownload ex_conf = False" "shuffle ex_conf = False"
  "mix ex_conf = False" "args ex_conf = [''cafe'', ''rain'']" "db ex_conf = ex_db"
  by (simp_all add: ex_conf_def)

lemma ex_http_rain:
  "http ex_world_full (assetUrl ''07002.wav'')
     = Inr \<lparr>status = 200, body = [7, 8, 9], body_fault = None\<rparr>"
  "http ex_world (assetUrl ''07002.wav'')
     = Inr \<lparr>status = 200, body = [7, 8, 9], body_fault = None\<rparr>"
  by (simp_all add: ex_world_full_def ex_world_def ex_http_def)

lemma ex_download_half:
  "downloadFile ex_world_full ''/c/sounds/07002.wav'' (assetUrl ''07002.wav'')
     = (ex_world_half, Some (ErrOther ''write failed''))"
  by (simp add: downloadFile_def os_Create_def io_Copy_def ex_http_def
      ex_world_full_def ex_world_half_def ex_world_def)

lemma ex_download_ok:
  "downloadFile ex_world ''/c/sounds/07002.wav'' (assetUrl ''07002.wav'')
     = (ex_world\<lparr>files := (files ex_world)(''/c/sounds/07002.wav'' \<mapsto> [7, 8, 9])\<rparr>, None)"
  by (simp add: downloadFile_def os_Create_def io_Copy_def ex_http_def ex_world_def)

lemmas eval_defs = exec_defs init_def inquirers_def launch_players_def new_player_def
  queryDatabase_def newSinglePlayersRouter_def newMultiPlayersRouter_def
  singlePlayersRouter_route_def multiPlayersRouter_route_def singlePlayersRouter_close_def
  multiPlayersRouter_close_def chan_close_def make_chan_def PlayerChannelSize_def
  downloader_item_def fileExists_def os_Stat_def os_IsNotExist_def downloadFile_def os_Create_def
  io_Copy_def soundPath_def preview_script_def preview_line_def

lemma ex_run:
  "map_option (\<lambda>c. (trace c, dl c, chans c, producers c))
     (run ex_conf (init ex_conf ex_world) ex_schedule)
   = Some ([EvQuery ''cafe'', EvIntake ex_cafe, EvCached ex_cafe, EvQueued 0 ex_cafe,
            EvPlaying 0 ex_cafe, EvQuery ''rain''],
           DIdle, [\<lparr>cbuf = [], cclosed = False\<rparr>],
           [[ASend DownloadCh ex_rain]])"
  by (simp add: ex_schedule_def eval_defs ex_db_def ex_join_def ex_world_def ex_cafe_def ex_rain_def)


lemma ex_run_Some:
  obtains c where "run ex_conf (init ex_conf ex_world) ex_schedule = Some c"
    "trace c = [EvQuery ''cafe'', EvIntake ex_cafe, EvCached ex_cafe, EvQueued 0 ex_cafe,
            EvPlaying 0 ex_cafe, EvQuery ''rain'']"
    "dl c = DIdle" "chans c = [\<lparr>cbuf = [], cclosed = False\<rparr>]"
    "producers c = [[ASend DownloadCh ex_rain]]"
  using ex_run by (cases "run ex_conf (init ex_conf ex_world) ex_schedule") auto

subsection \<open>Closing channels\<close>

lemma chan_close_Inr:
  "chan_close chs c = Inr chs' \<Longrightarrow>
     c < length chs \<and> \<not> cclosed (chs ! c) \<and> chs' = chs[c := (chs ! c)\<lparr>cclosed := True\<rparr>]"
  by (auto simp: chan_close_def split: if_splits)

lemma close_all_length: "close_all cs chs = Inr chs' \<Longrightarrow> length chs' = length chs"
  by (induction cs arbitrary: chs) (auto split: sum.splits dest!: chan_close_Inr)

lemma close_all_other: "close_all cs chs = Inr chs' \<Longrightarrow> i \<notin> set cs \<Longrightarrow> chs' ! i = chs ! i"
  by (induction cs arbitrary: chs) (auto split: sum.splits dest!: chan_close_Inr)

lemma close_all_mono:
  "close_all cs chs = Inr chs' \<Longrightarrow> i < length chs \<Longrightarrow> cclosed (chs ! i) \<Longrightarrow> cclosed (chs' ! i)"
proof (induction cs arbitrary: chs)
  case Nil
  then show ?case by simp
next
  case (Cons c cs)
  from Cons.prems(1) obtain chs1
    where 1: "chan_close chs c = Inr chs1" and 2: "close_all cs chs1 = Inr chs'"
    by (auto split: sum.splits)
  from chan_close_Inr [OF 1] Cons.prems(2,3) have "i < length chs1" "cclosed (chs1 ! i)"
    by (auto simp: nth_list_update)
  with Cons.IH [OF 2] show ?case by simp
qed

lemma close_all_closed:
  "close_all cs chs = Inr chs' \<Longrightarrow> c \<in> set cs \<Longrightarrow> c < length chs \<and> cclosed (chs' ! c)"
proof (induction cs arbitrary: chs)
  case Nil
  then show ?case by simp
next
  case (Cons a cs)
  from Cons.prems(1) obtain chs1
    where 1: "chan_close chs a = Inr chs1" and 2: "close_all cs chs1 = Inr chs'"
    by (auto split: sum.splits)
  note a = chan_close_Inr [OF 1]
  show ?case
  proof (cases "c = a")
    case True
    from a have "a < length chs1" "cclosed (chs1 ! a)" by simp_all
    with close_all_mono [OF 2] True a show ?thesis by simp
  next
    case False
    with Cons.prems(2) have "c \<in> set cs" by simp
    from Cons.IH [OF 2 this] a show ?thesis by simp
  qed
qed

lemma close_all_buf:
  "close_all cs chs = Inr chs' \<Longrightarrow> i < length chs \<Longrightarrow> cbuf (chs' ! i) = cbuf (chs ! i)"
proof (induction cs arbitrary: chs)
  case Nil
  then show ?case by simp
next
  case (Cons c cs)
  from Cons.prems(1) obtain chs1
    where 1: "chan_close chs c = Inr chs1" and 2: "close_all cs chs1 = Inr chs'"
    by (auto split: sum.splits)
  from chan_close_Inr [OF 1] Cons.prems(2)
  have "i < length chs1" "cbuf (chs1 ! i) = cbuf (chs ! i)"
    by (auto simp: nth_list_update)
  with Cons.IH [OF 2] show ?case by simp
qed

text \<open>
  Go ranges over the map in an unspecified order: when \<^verbatim>\<open>close()\<close> succeeds in one order of
  the channels it succeeds in every order, with the same result.
\<close>

lemma close_all_succeeds:
  "distinct cs \<Longrightarrow> (\<forall>c \<in> set cs. c < length chs \<and> \<not> cclosed (chs ! c)) \<Longrightarrow>
     \<exists>chs'. close_all cs chs = Inr chs'"
proof (induction cs arbitrary: chs)
  case Nil
  then show ?case by simp
next
  case (Cons c cs)
  let ?chs1 = "chs[c := (chs ! c)\<lparr>cclosed := True\<rparr>]"
  from Cons.prems have 1: "chan_close chs c = Inr ?chs1" by (simp add: chan_close_def)
  from Cons.prems have "\<forall>c' \<in> set cs. c' < length ?chs1 \<and> \<not> cclosed (?chs1 ! c')"
    by (auto simp: nth_list_update)
  with Cons.IH [of ?chs1] Cons.prems(1) obtain chs' where "close_all cs ?chs1 = Inr chs'"
    by auto
  with 1 show ?case by simp
qed

lemma close_all_open:
  "close_all cs chs = Inr chs' \<Longrightarrow> c \<in> set cs \<Longrightarrow> \<not> cclosed (chs ! c)"
proof (induction cs arbitrary: chs)
  case Nil
  then show ?case by simp
next
  case (Cons a cs)
  from Cons.prems(1) obtain chs2
    where x: "chan_close chs a = Inr chs2" and y: "close_all cs chs2 = Inr chs'"
    by (auto split: sum.splits)
  note z = chan_close_Inr [OF x]
  show ?case
  proof (cases "c = a")
    case True
    with z show ?thesis by simp
  next
    case False
    with Cons.prems(2) have "c \<in> set cs" by simp
    from Cons.IH [OF y this] z False show ?thesis
      by (cases "c < length chs") (simp_all add: nth_list_update)
  qed
qed

lemma close_all_distinct: "close_all cs chs = Inr chs' \<Longrightarrow> distinct cs"
proof (induction cs arbitrary: chs)
  case Nil
  then show ?case by simp
next
  case (Cons c cs)
  from Cons.prems obtain chs1
    where 1: "chan_close chs c = Inr chs1" and 2: "close_all cs chs1 = Inr chs'"
    by (auto split: sum.splits)
  from chan_close_Inr [OF 1] have "cclosed (chs1 ! c)" by simp
  with close_all_open [OF 2] have "c \<notin> set cs" by blast
  with Cons.IH [OF 2] show ?case by simp
qed

lemma chan_eqI: "cbuf x = cbuf y \<Longrightarrow> cclosed x = cclosed y \<Longrightarrow> (x :: chan) = y"
  by simp

lemma close_all_order:
  assumes "close_all cs chs = Inr chs'" and "set cs' = set cs" and "distinct cs'"
  shows "close_all cs' chs = Inr chs'"
proof -
  have o: "\<forall>c \<in> set cs'. c < length chs \<and> \<not> cclosed (chs ! c)"
    using close_all_closed [OF assms(1)] close_all_open [OF assms(1)] assms(2) by blast
  from close_all_succeeds [OF assms(3) o] obtain chs'' where r: "close_all cs' chs = Inr chs''"
    by blast
  have "chs'' = chs'"
  proof (rule nth_equalityI)
    show "length chs'' = length chs'"
      using close_all_length [OF r] close_all_length [OF assms(1)] by simp
  next
    fix i assume "i < length chs''"
    then have i: "i < length chs" using close_all_length [OF r] by simp
    show "chs'' ! i = chs' ! i"
    proof (cases "i \<in> set cs")
      case True
      with close_all_closed [OF r, of i] close_all_closed [OF assms(1), of i] assms(2)
        close_all_buf [OF r i] close_all_buf [OF assms(1) i]
      show ?thesis by (intro chan_eqI) simp_all
    next
      case False
      with close_all_other [OF r, of i] close_all_other [OF assms(1), of i] assms(2)
      show ?thesis by simp
    qed
  qed
  with r show ?thesis by simp
qed

subsection \<open>The steps, case by case\<close>

lemma exec_action_cases:
  assumes "exec_action i a c = Some c'"
  obtains
    (Query) q where "a = AQuery q"
      "c' = c\<lparr>producers := (producers c)[i := tl (producers c ! i)],
               trace := trace c @ [EvQuery q]\<rparr>"
  | (Fatal) e where "a = AFatal e" "c' = c\<lparr>halted := Some 1, trace := trace c @ [EvFatal e]\<rparr>"
  | (Spawn) "a = ASpawn"
      "c' = c\<lparr>printers := printers c @ [None],
               producers := (producers c)[i := tl (producers c ! i)],
               trace := trace c @ [EvSpawn]\<rparr>"
  | (Exit) "a = AExit" "c' = c\<lparr>halted := Some 0\<rparr>"
  | (Intake) s where "a = ASend DownloadCh s" "dl c = DIdle"
      "c' = c\<lparr>dl := DHolding s, producers := (producers c)[i := tl (producers c ! i)],
               trace := trace c @ [EvIntake s]\<rparr>"
  | (Receive) k s where "a = ASend (PrinterCh k) s" "k < length (printers c)"
      "printers c ! k = None"
      "c' = c\<lparr>printers := (printers c)[k := Some s],
               producers := (producers c)[i := tl (producers c ! i)],
               trace := trace c @ [EvReceived k s]\<rparr>"
  using assms
  by (cases "(i, a, c)" rule: exec_action.cases) (auto simp: pop_def emit_def split: if_splits)

lemma exec_cases [consumes 1, case_names Query Fatal Spawn Exit Intake Receive CloseIntake
    ResolveOk ResolveFail Send SendNil SendClosed DlClose ClosePanic PlayerRoute RoutePanic
    PlayerRecv PlayerEnd MainExit Print]:
  assumes "exec cf l c = Some c'"
  obtains
    (Query) i q rest where "i < length (producers c)" "producers c ! i = AQuery q # rest"
      "c' = c\<lparr>producers := (producers c)[i := rest], trace := trace c @ [EvQuery q]\<rparr>"
  | (Fatal) i e rest where "i < length (producers c)" "producers c ! i = AFatal e # rest"
      "c' = c\<lparr>halted := Some 1, trace := trace c @ [EvFatal e]\<rparr>"
  | (Spawn) i rest where "i < length (producers c)" "producers c ! i = ASpawn # rest"
      "c' = c\<lparr>printers := printers c @ [None], producers := (producers c)[i := rest],
               trace := trace c @ [EvSpawn]\<rparr>"
  | (Exit) i rest where "i < length (producers c)" "producers c ! i = AExit # rest"
      "c' = c\<lparr>halted := Some 0\<rparr>"
  | (Intake) i s rest where "i < length (producers c)"
      "producers c ! i = ASend DownloadCh s # rest" "dl c = DIdle"
      "c' = c\<lparr>dl := DHolding s, producers := (producers c)[i := rest],
               trace := trace c @ [EvIntake s]\<rparr>"
  | (Receive) i k s rest where "i < length (producers c)"
      "producers c ! i = ASend (PrinterCh k) s # rest"
      "k < length (printers c)" "printers c ! k = None"
      "c' = c\<lparr>printers := (printers c)[k := Some s], producers := (producers c)[i := rest],
               trace := trace c @ [EvReceived k s]\<rparr>"
  | (CloseIntake) "\<not> onlyQuery cf" "\<not> in_closed c" "list_all (\<lambda>p. p = []) (producers c)"
      "c' = c\<lparr>in_closed := True\<rparr>"
  | (ResolveOk) s w' evs where "dl c = DHolding s"
      "downloader_item cf (world c) s = (w', evs, None)"
      "c' = c\<lparr>world := w', dl := DSending s, trace := trace c @ evs\<rparr>"
  | (ResolveFail) s w' evs e where "dl c = DHolding s"
      "downloader_item cf (world c) s = (w', evs, Some e)"
      "c' = c\<lparr>world := w', dl := DIdle, trace := trace c @ evs @ [EvDropped s e]\<rparr>"
  | (Send) s cid r' chs' where "dl c = DSending s"
      "route (router c) (chans c) (query s) = Inr (cid, r', chs')"
      "\<not> cclosed (chs' ! cid)" "length (cbuf (chs' ! cid)) < PlayerChannelSize"
      "c' = c\<lparr>router := r',
               chans := chs'[cid := (chs' ! cid)\<lparr>cbuf := cbuf (chs' ! cid) @ [s]\<rparr>],
               dl := DIdle, trace := trace c @ [EvQueued cid s]\<rparr>"
  | (SendNil) s p where "dl c = DSending s"
      "route (router c) (chans c) (query s) = Inl p"
      "c' = c\<lparr>halted := Some 2, trace := trace c @ [EvPanic p]\<rparr>"
  | (SendClosed) s cid r' chs' where "dl c = DSending s"
      "route (router c) (chans c) (query s) = Inr (cid, r', chs')" "cclosed (chs' ! cid)"
      "c' = c\<lparr>halted := Some 2, trace := trace c @ [EvPanic PanicSendOnClosedChannel]\<rparr>"
  | (DlClose) chs' where "dl c = DIdle" "in_closed c"
      "router_close (router c) (chans c) = Inr chs'"
      "c' = c\<lparr>chans := chs', dl := DDone, trace := trace c @ [EvRouterClose]\<rparr>"
  | (ClosePanic) p where "dl c = DIdle" "in_closed c"
      "router_close (router c) (chans c) = Inl p"
      "c' = c\<lparr>halted := Some 2, trace := trace c @ [EvPanic p]\<rparr>"
  | (PlayerRoute) j cid r' chs' where "j < length (players c)" "pchan (players c ! j) = None"
      "route (router c) (chans c) (pkey (players c ! j)) = Inr (cid, r', chs')"
      "c' = c\<lparr>router := r', chans := chs',
               players := (players c)[j := (players c ! j)\<lparr>pchan := Some cid\<rparr>]\<rparr>"
  | (RoutePanic) j p where "j < length (players c)" "pchan (players c ! j) = None"
      "route (router c) (chans c) (pkey (players c ! j)) = Inl p"
      "c' = c\<lparr>halted := Some 2, trace := trace c @ [EvPanic p]\<rparr>"
  | (PlayerRecv) j cid s b where "j < length (players c)" "\<not> pdone (players c ! j)"
      "pchan (players c ! j) = Some cid" "cid < length (chans c)"
      "cbuf (chans c ! cid) = s # b"
      "c' = c\<lparr>chans := (chans c)[cid := (chans c ! cid)\<lparr>cbuf := b\<rparr>],
               trace := trace c @ [EvPlaying cid s]\<rparr>"
  | (PlayerEnd) j cid where "j < length (players c)" "\<not> pdone (players c ! j)"
      "pchan (players c ! j) = Some cid" "cid < length (chans c)"
      "cbuf (chans c ! cid) = []" "cclosed (chans c ! cid)"
      "c' = c\<lparr>players := (players c)[j := (players c ! j)\<lparr>pdone := True\<rparr>]\<rparr>"
  | (MainExit) "\<not> onlyQuery cf" "dl c = DDone" "in_closed c" "list_all pdone (players c)"
      "c' = c\<lparr>halted := Some 0\<rparr>"
  | (Print) k s where "k < length (printers c)" "printers c ! k = Some s"
      "c' = c\<lparr>printers := (printers c)[k := None],
               trace := trace c @ [EvPrint (preview_line (world c) s)]\<rparr>"
proof -
  from assms have h: "halted c = None" and e: "exec_label cf l c = Some c'"
    by (auto simp: exec_def split: if_splits)
  show ?thesis
  proof (cases l)
    case (LProd i)
    with e obtain a rest where i: "i < length (producers c)" and p: "producers c ! i = a # rest"
      and x: "exec_action i a c = Some c'"
      by (auto simp: exec_prod_def split: if_splits list.splits)
    from x show ?thesis
      by (cases rule: exec_action_cases)
        (use i p in \<open>auto intro: Query Fatal Spawn Exit Intake Receive\<close>)
  next
    case LCloseIntake
    with e show ?thesis
      by (auto simp: exec_close_intake_def split: if_splits intro: CloseIntake)
  next
    case LResolve
    with e show ?thesis
      by (auto simp: exec_resolve_def emit_def split: dstate.splits prod.splits option.splits
          intro: ResolveOk ResolveFail)
  next
    case LSend
    with e show ?thesis
      by (auto simp: exec_send_def emit_def split: dstate.splits sum.splits prod.splits if_splits
          intro: Send SendNil SendClosed)
  next
    case LDlClose
    with e show ?thesis
      by (auto simp: exec_dlclose_def emit_def split: sum.splits if_splits intro: DlClose ClosePanic)
  next
    case (LPlayerRoute j)
    with e show ?thesis
      by (auto simp: exec_player_route_def emit_def split: sum.splits if_splits prod.splits
          intro: PlayerRoute RoutePanic)
  next
    case (LPlayerRecv j)
    with e show ?thesis
      by (auto simp: exec_player_recv_def emit_def split: option.splits if_splits list.splits
          intro: PlayerRecv)
  next
    case (LPlayerEnd j)
    with e show ?thesis
      by (auto simp: exec_player_end_def split: option.splits if_splits intro: PlayerEnd)
  next
    case LMainExit
    with e show ?thesis
      by (auto simp: exec_main_exit_def split: if_splits intro: MainExit)
  next
    case (LPrint k)
    with e show ?thesis
      by (auto simp: exec_print_def emit_def split: option.splits if_splits intro: Print)
  qed
qed

subsection \<open>Routing\<close>

lemma mroute_cases:
  "multiPlayersRouter_route routes chs q = (c, routes', chs') \<Longrightarrow>
     (map_of routes q = Some c \<and> routes' = routes \<and> chs' = chs)
     \<or> (map_of routes q = None \<and> c = length chs \<and> routes' = routes @ [(q, c)]
         \<and> chs' = chs @ [make_chan])"
  by (auto simp: multiPlayersRouter_route_def split: option.splits)

lemma route_all_extends:
  "route_all routes chs qs = (routes', chs') \<Longrightarrow> \<exists>ext. chs' = chs @ ext"
proof (induction qs arbitrary: routes chs)
  case Nil
  then show ?case by simp
next
  case (Cons q qs)
  then show ?case
    by (fastforce split: prod.splits dest!: mroute_cases)
qed

lemma route_Inr:
  assumes "route r chs q = Inr (cid, r', chs')" and "wf_router r chs"
  shows "wf_router r' chs'" and "cid < length chs'"
    and "chs' = chs \<or> (chs' = chs @ [make_chan] \<and> cid = length chs)"
  using assms
  by (cases r; auto simp: singlePlayersRouter_route_def multiPlayersRouter_route_def list_all_iff
      split: option.splits dest!: map_of_SomeD)+

lemma router_close_Inr:
  assumes "router_close r chs = Inr chs'"
  shows "length chs' = length chs" and "\<And>i. i < length chs \<Longrightarrow> cbuf (chs' ! i) = cbuf (chs ! i)"
  using assms
  by (cases r; auto simp: singlePlayersRouter_close_def multiPlayersRouter_close_def nth_list_update
      dest!: chan_close_Inr dest: close_all_length close_all_buf)+

lemma wf_router_length: "length chs' = length chs \<Longrightarrow> wf_router r chs' = wf_router r chs"
  by (cases r) simp_all

lemma wf_router_update [simp]: "wf_router r (chs[i := x]) = wf_router r chs"
  by (rule wf_router_length) simp

subsection \<open>Invariants of every run\<close>

lemma downloader_item_events:
  "downloader_item cf w s = (w', evs, e) \<Longrightarrow> evs = [] \<or> evs = [EvCached s] \<or> evs = [EvFetch s]"
  by (auto simp: downloader_item_def split: prod.splits if_splits)

lemmas proj_defs = intakes_def outcomes_def queued_def dropped_def fetches_def received_def
  printed_def acts_def

lemma outcomes_length: "length (outcomes tr) = length (queued tr) + length (dropped tr)"
proof (induction tr)
  case Nil
  then show ?case by (simp add: proj_defs)
next
  case (Cons e tr)
  then show ?case by (cases e) (simp_all add: proj_defs)
qed

lemma intake_step:
  assumes "exec cf l c = Some c'" and "intakes (trace c) = outcomes (trace c) @ inflight (dl c)"
  shows "intakes (trace c') = outcomes (trace c') @ inflight (dl c')"
  using assms(1)
proof (cases rule: exec_cases)
  case (ResolveOk s w' evs)
  with downloader_item_events [OF ResolveOk(2)] assms(2) show ?thesis
    by (auto simp: proj_defs)
next
  case (ResolveFail s w' evs e)
  with downloader_item_events [OF ResolveFail(2)] assms(2) show ?thesis
    by (auto simp: proj_defs)
qed (use assms(2) in \<open>auto simp: proj_defs\<close>)

lemma fetch_step:
  assumes "exec cf l c = Some c'"
    and "length (fetches (trace c)) + length (inflight (dl c)) \<le> length (intakes (trace c))
           + (case dl c of DSending s \<Rightarrow> 1 | _ \<Rightarrow> 0)"
  shows "length (fetches (trace c')) + length (inflight (dl c')) \<le> length (intakes (trace c'))
           + (case dl c' of DSending s \<Rightarrow> 1 | _ \<Rightarrow> 0)"
  using assms(1)
proof (cases rule: exec_cases)
  case (ResolveOk s w' evs)
  with downloader_item_events [OF ResolveOk(2)] assms(2) show ?thesis
    by (auto simp: proj_defs)
next
  case (ResolveFail s w' evs e)
  with downloader_item_events [OF ResolveFail(2)] assms(2) show ?thesis
    by (auto simp: proj_defs)
qed (use assms(2) in \<open>auto simp: proj_defs split: dstate.splits\<close>)

lemma fifo_step:
  assumes "exec cf l c = Some c'" and "fifo c"
  shows "fifo c'"
  using assms(1)
proof (cases rule: exec_cases)
  case (ResolveOk s w' evs)
  with downloader_item_events [OF ResolveOk(2)] assms(2) show ?thesis
    by (auto simp: fifo_def)
next
  case (ResolveFail s w' evs e)
  with downloader_item_events [OF ResolveFail(2)] assms(2) show ?thesis
    by (auto simp: fifo_def)
next
  case (Send s cid r' chs')
  from assms(2) have wf: "wf_router (router c) (chans c)" by (simp add: fifo_def)
  note r = route_Inr [OF Send(2) wf]
  have 1: "wf_router (router c') (chans c')" using Send(5) r(1) by simp
  have 2: "concat (map (queued_on k) (trace c'))
      = concat (map (played_on k) (trace c'))
        @ (if k < length (chans c') then cbuf (chans c' ! k) else [])" for k
    using r(3)
  proof
    assume "chs' = chans c"
    with Send r(2) assms(2) show ?thesis
      by (auto simp: fifo_def nth_list_update)
  next
    assume "chs' = chans c @ [make_chan] \<and> cid = length (chans c)"
    with Send assms(2) show ?thesis
      by (auto simp: fifo_def nth_list_update nth_append make_chan_def)
  qed
  show ?thesis unfolding fifo_def using 1 2 by blast
next
  case (DlClose chs')
  from assms(2) have wf: "wf_router (router c) (chans c)" by (simp add: fifo_def)
  note r = router_close_Inr [OF DlClose(3)]
  have "wf_router (router c) chs'" using wf r(1) wf_router_length by blast
  with DlClose r assms(2) show ?thesis by (auto simp: fifo_def)
next
  case (PlayerRoute j cid r' chs')
  from assms(2) have wf: "wf_router (router c) (chans c)" by (simp add: fifo_def)
  note r = route_Inr [OF PlayerRoute(3) wf]
  have 1: "wf_router (router c') (chans c')" using PlayerRoute(4) r(1) by simp
  have 2: "concat (map (queued_on k) (trace c'))
      = concat (map (played_on k) (trace c'))
        @ (if k < length (chans c') then cbuf (chans c' ! k) else [])" for k
    using r(3)
  proof
    assume "chs' = chans c"
    with PlayerRoute assms(2) show ?thesis
      by (auto simp: fifo_def)
  next
    assume "chs' = chans c @ [make_chan] \<and> cid = length (chans c)"
    with PlayerRoute assms(2) show ?thesis
      by (auto simp: fifo_def nth_append make_chan_def)
  qed
  show ?thesis unfolding fifo_def using 1 2 by blast
next
  case (PlayerRecv j cid s b)
  from PlayerRecv assms(2) show ?thesis
    by (auto simp: fifo_def nth_list_update)
qed (use assms(2) in \<open>auto simp: fifo_def\<close>)

lemma fifo_init: "fifo (init cf w)"
  by (cases "onlyQuery cf") (auto simp: fifo_def init_pipeline init_preview make_chan_def)

subsection \<open>Items are those the query sources created\<close>

lemma sounds_of_simps [simp]:
  "sounds_of [] = []" "sounds_of (a # as) = sound_of a @ sounds_of as"
  "sounds_of (as @ bs) = sounds_of as @ sounds_of bs"
  by (simp_all add: sounds_of_def)

lemma sounds_of_concat: "sounds_of (concat xss) = concat (map sounds_of xss)"
  by (induction xss) simp_all

lemma sounds_scan_rows:
  "sounds_of (scan_rows cf q out rows) = sounds_of (scan_rows cf q DownloadCh rows)"
  by (induction cf q out rows rule: scan_rows.induct) simp_all

lemma sounds_queryDatabase:
  "sounds_of (queryDatabase cf q out) = sounds_of (queryDatabase cf q DownloadCh)"
  by (auto simp: queryDatabase_def sounds_scan_rows [of cf q out] split: qresult.splits option.splits)

lemma sounds_inquirers:
  "p \<in> set (inquirers cf) \<Longrightarrow> set (sounds_of p) \<subseteq> set (created cf)"
  by (auto simp: inquirers_def created_def sounds_of_concat split: if_splits)

lemma sounds_preview_script: "sounds_of (preview_script cf) = created cf"
proof -
  have "concat (map (\<lambda>(k, q). sounds_of (ASpawn # queryDatabase cf q (PrinterCh k))) (enumerate n xs))
      = concat (map (\<lambda>q. sounds_of (queryDatabase cf q DownloadCh)) xs)" for n xs
    by (induction xs arbitrary: n) (simp_all add: sounds_queryDatabase [of cf _ "PrinterCh _"])
  then show ?thesis
    by (simp add: preview_script_def created_def sounds_of_concat comp_def case_prod_unfold)
qed

lemma all_created_init: "all_created cf (init cf w)"
  by (cases "onlyQuery cf")
    (auto simp: all_created_def init_pipeline init_preview sounds_preview_script make_chan_def
      dest: sounds_inquirers [OF nth_mem])

lemma all_created_rest:
  assumes "all_created cf c" and "i < length (producers c)" and "producers c ! i = a # rest"
  shows "set (sound_of a) \<subseteq> set (created cf)" and "set (sounds_of rest) \<subseteq> set (created cf)"
proof -
  from assms(1,2) have "set (sounds_of (producers c ! i)) \<subseteq> set (created cf)"
    by (simp add: all_created_def)
  with assms(3) show "set (sound_of a) \<subseteq> set (created cf)"
    and "set (sounds_of rest) \<subseteq> set (created cf)"
    by simp_all
qed

lemma all_created_step:
  assumes "exec cf l c = Some c'" and "all_created cf c" and "wf_router (router c) (chans c)"
  shows "all_created cf c'"
  using assms(1)
proof (cases rule: exec_cases)
  case (ResolveOk s w' evs)
  with downloader_item_events [OF ResolveOk(2)] assms(2) show ?thesis
    by (auto simp: all_created_def)
next
  case (ResolveFail s w' evs e)
  with downloader_item_events [OF ResolveFail(2)] assms(2) show ?thesis
    by (auto simp: all_created_def)
next
  case (Send s cid r' chs')
  note r = route_Inr [OF Send(2) assms(3)]
  from r(3) show ?thesis
  proof
    assume "chs' = chans c"
    with Send r(2) assms(2) show ?thesis
      by (auto simp: all_created_def nth_list_update split: if_splits)
  next
    assume "chs' = chans c @ [make_chan] \<and> cid = length (chans c)"
    with Send assms(2) show ?thesis
      by (auto simp: all_created_def nth_list_update nth_append make_chan_def split: if_splits)
  qed
next
  case (PlayerRoute j cid r' chs')
  note r = route_Inr [OF PlayerRoute(3) assms(3)]
  with PlayerRoute assms(2) show ?thesis
    by (auto simp: all_created_def nth_append make_chan_def split: if_splits; blast)
next
  case (DlClose chs')
  note r = router_close_Inr [OF DlClose(3)]
  with DlClose assms(2) show ?thesis
    by (auto simp: all_created_def)
next
  case (PlayerRecv j cid s b)
  from assms(2) PlayerRecv(4) have "set (cbuf (chans c ! cid)) \<subseteq> set (created cf)"
    by (simp add: all_created_def)
  with PlayerRecv(5) have "set (s # b) \<subseteq> set (created cf)" by simp
  with PlayerRecv assms(2) show ?thesis
    by (auto simp: all_created_def nth_list_update split: if_splits)
next
  case (Query i q rest)
  with all_created_rest [OF assms(2) Query(1,2)] assms(2) show ?thesis
    by (auto simp: all_created_def nth_list_update split: if_splits)
next
  case (Spawn i rest)
  with all_created_rest [OF assms(2) Spawn(1,2)] assms(2) show ?thesis
    by (auto simp: all_created_def nth_list_update nth_append split: if_splits)
next
  case (Intake i s rest)
  with all_created_rest [OF assms(2) Intake(1,2)] assms(2) show ?thesis
    by (auto simp: all_created_def nth_list_update split: if_splits)
next
  case (Receive i k s rest)
  with all_created_rest [OF assms(2) Receive(1,2)] assms(2) show ?thesis
    by (auto simp: all_created_def nth_list_update split: if_splits)
next
  case (Print k s)
  with assms(2) show ?thesis
    by (auto simp: all_created_def nth_list_update split: if_splits)
qed (use assms(2) in \<open>auto simp: all_created_def\<close>)

lemma scan_rows_fields:
  "s \<in> set (sounds_of (scan_rows cf q out rows)) \<Longrightarrow>
     fpath s = soundPath cf (fname s) \<and> query s = q"
  by (induction cf q out rows rule: scan_rows.induct) auto

lemma queryDatabase_fields:
  "s \<in> set (sounds_of (queryDatabase cf q out)) \<Longrightarrow>
     fpath s = soundPath cf (fname s) \<and> query s = q"
  by (auto simp: queryDatabase_def split: qresult.splits option.splits dest: scan_rows_fields)

lemma created_fields:
  "s \<in> set (created cf) \<Longrightarrow> fpath s = soundPath cf (fname s) \<and> query s \<in> set (args cf)"
  by (auto simp: created_def dest: queryDatabase_fields)

lemma intake_sub: "set (intake_of e) \<subseteq> set (event_sounds e)"
  by (cases e) simp_all

lemma queued_sub: "set (queued_of e) \<subseteq> set (event_sounds e)"
  by (cases e) simp_all

lemma played_sub: "set (played_on cid e) \<subseteq> set (event_sounds e)"
  by (cases e) auto

lemma concat_map_sub:
  assumes "\<And>e. set (f e) \<subseteq> set (g e)"
  shows "set (concat (map f tr)) \<subseteq> set (concat (map g tr))"
  using assms by (induction tr) auto

lemma all_created_run:
  assumes "run cf (init cf w) ls = Some c"
  shows "all_created cf c"
proof -
  have "fifo c \<and> all_created cf c"
    using assms
  proof (rule run_invariant)
    show "fifo (init cf w) \<and> all_created cf (init cf w)"
      by (simp add: fifo_init all_created_init)
  next
    fix c l c'
    assume h: "fifo c \<and> all_created cf c" and e: "exec cf l c = Some c'"
    from h have wf: "wf_router (router c) (chans c)" by (simp add: fifo_def)
    from h fifo_step [OF e] all_created_step [OF e _ wf]
    show "fifo c' \<and> all_created cf c'" by blast
  qed
  then show ?thesis by simp
qed

lemma ex_created: "created ex_conf = [ex_cafe, ex_rain]"
  by (simp add: created_def queryDatabase_def ex_db_def soundPath_def ex_join_def
      ex_cafe_def ex_rain_def)

subsection \<open>The router of the mix mode\<close>

lemma mroute_keep:
  assumes "multiPlayersRouter_route routes chs q = (cid, routes', chs')"
    and "map_of routes k = Some x"
  shows "map_of routes' k = Some x"
  using mroute_cases [OF assms(1)] assms(2) by (auto simp: map_add_def)

lemma mroute_inv:
  assumes "multiPlayersRouter_route routes chs q = (cid, routes', chs')"
    and "distinct (map fst routes)" and "map snd routes = [0..<length chs]"
  shows "distinct (map fst routes')" and "map snd routes' = [0..<length chs']"
    and "set (map fst routes') = insert q (set (map fst routes))"
    and "map_of routes' q = Some cid"
proof -
  from mroute_cases [OF assms(1)]
  show "distinct (map fst routes')" "map snd routes' = [0..<length chs']"
    "set (map fst routes') = insert q (set (map fst routes))"
    using assms(2,3)
    by (auto simp: map_of_eq_None_iff dest: map_of_SomeD intro: rev_image_eqI)
  from mroute_cases [OF assms(1)] show "map_of routes' q = Some cid"
    by (auto simp: map_add_def)
qed

lemma map_pkey_update:
  "j < length ps \<Longrightarrow> pkey p = pkey (ps ! j) \<Longrightarrow> map pkey (ps[j := p]) = map pkey ps"
  by (simp add: map_update) (metis list_update_id nth_map)

lemma mix_inv_init:
  assumes "mix cf" and "\<not> onlyQuery cf"
  shows "mix_inv cf (init cf w)"
  using assms
  by (simp add: mix_inv_def asked_def init_pipeline launch_players_def new_player_def comp_def
      proj_defs)

lemma routed_update:
  assumes "j < length ps"
  shows "set (map pkey (filter (\<lambda>p. pchan p \<noteq> None) (ps[j := (ps ! j)\<lparr>pchan := Some cid\<rparr>])))
           = insert (pkey (ps ! j)) (set (map pkey (filter (\<lambda>p. pchan p \<noteq> None) ps)))"
  using assms
proof (induction ps arbitrary: j)
  case Nil
  then show ?case by simp
next
  case (Cons p ps)
  then show ?case by (cases j) auto
qed

lemma routed_done:
  assumes "j < length ps"
  shows "map pkey (filter (\<lambda>p. pchan p \<noteq> None) (ps[j := (ps ! j)\<lparr>pdone := True\<rparr>]))
           = map pkey (filter (\<lambda>p. pchan p \<noteq> None) ps)"
  using assms
proof (induction ps arbitrary: j)
  case Nil
  then show ?case by simp
next
  case (Cons p ps)
  then show ?case by (cases j) auto
qed

lemma mix_inv_step:
  assumes "exec cf l c = Some c'" and "mix_inv cf c"
  shows "mix_inv cf c'"
proof -
  from assms(2) obtain routes where r: "router c = MultiPlayersRouter routes"
    "distinct (map fst routes)" "map snd routes = [0..<length (chans c)]"
    "set (map fst routes) = set (asked c)" "map pkey (players c) = map pkey (launch_players cf)"
    "\<forall>j < length (players c). \<forall>cid. pchan (players c ! j) = Some cid
        \<longrightarrow> map_of routes (pkey (players c ! j)) = Some cid"
    "\<forall>cid s. EvQueued cid s \<in> set (trace c) \<longrightarrow> map_of routes (query s) = Some cid"
    unfolding mix_inv_def by blast
  from assms(1) show ?thesis
  proof (cases rule: exec_cases)
    case (ResolveOk s w' evs)
    with downloader_item_events [OF ResolveOk(2)] assms(2) show ?thesis
      by (auto simp: mix_inv_def asked_def proj_defs)
  next
    case (ResolveFail s w' evs e)
    with downloader_item_events [OF ResolveFail(2)] assms(2) show ?thesis
      by (auto simp: mix_inv_def asked_def proj_defs)
  next
    case (Send s cid r' chs')
    from Send(2) r(1) obtain routes' where m:
      "multiPlayersRouter_route routes (chans c) (query s) = (cid, routes', chs')"
      "r' = MultiPlayersRouter routes'"
      by (auto split: prod.splits)
    note i = mroute_inv [OF m(1) r(2,3)]
    have k: "map_of routes k = Some x \<Longrightarrow> map_of routes' k = Some x" for k x
      using mroute_keep [OF m(1)] .
    have a: "set (asked c') = insert (query s) (set (asked c))"
      using Send(5) by (simp add: asked_def proj_defs)
    show ?thesis unfolding mix_inv_def
    proof (intro exI [of _ routes'] conjI)
      show "router c' = MultiPlayersRouter routes'" using Send(5) m(2) by simp
      show "distinct (map fst routes')" by (rule i(1))
      show "map snd routes' = [0..<length (chans c')]" using i(2) Send(5) by simp
      show "set (map fst routes') = set (asked c')" using i(3) r(4) a by simp
      show "map pkey (players c') = map pkey (launch_players cf)" using r(5) Send(5) by simp
      show "\<forall>j < length (players c'). \<forall>cid. pchan (players c' ! j) = Some cid
              \<longrightarrow> map_of routes' (pkey (players c' ! j)) = Some cid"
        using r(6) k Send(5) by simp
      show "\<forall>cid s. EvQueued cid s \<in> set (trace c') \<longrightarrow> map_of routes' (query s) = Some cid"
        using r(7) k i(4) Send(5) by auto
    qed
  next
    case (PlayerRoute j cid r' chs')
    from PlayerRoute(3) r(1) obtain routes' where m:
      "multiPlayersRouter_route routes (chans c) (pkey (players c ! j)) = (cid, routes', chs')"
      "r' = MultiPlayersRouter routes'"
      by (auto split: prod.splits)
    note i = mroute_inv [OF m(1) r(2,3)]
    have k: "map_of routes k = Some x \<Longrightarrow> map_of routes' k = Some x" for k x
      using mroute_keep [OF m(1)] .
    have a: "set (asked c') = insert (pkey (players c ! j)) (set (asked c))"
      using PlayerRoute(1,4) routed_update [OF PlayerRoute(1), of cid]
      by (simp add: asked_def)
    show ?thesis unfolding mix_inv_def
    proof (intro exI [of _ routes'] conjI)
      show "router c' = MultiPlayersRouter routes'" using PlayerRoute(4) m(2) by simp
      show "distinct (map fst routes')" by (rule i(1))
      show "map snd routes' = [0..<length (chans c')]" using i(2) PlayerRoute(4) by simp
      show "set (map fst routes') = set (asked c')" using i(3) r(4) a by simp
      show "map pkey (players c') = map pkey (launch_players cf)"
        using r(5) PlayerRoute(1,4) by (simp add: map_pkey_update)
      show "\<forall>j < length (players c'). \<forall>cid. pchan (players c' ! j) = Some cid
              \<longrightarrow> map_of routes' (pkey (players c' ! j)) = Some cid"
      proof (intro allI impI)
        fix ja cida
        assume b: "ja < length (players c')" "pchan (players c' ! ja) = Some cida"
        show "map_of routes' (pkey (players c' ! ja)) = Some cida"
        proof (cases "ja = j")
          case True
          with b PlayerRoute(1,4) i(4) show ?thesis by simp
        next
          case False
          with b PlayerRoute(1,4) r(6) k show ?thesis by simp
        qed
      qed
      show "\<forall>cid s. EvQueued cid s \<in> set (trace c') \<longrightarrow> map_of routes' (query s) = Some cid"
        using r(7) k PlayerRoute(4) by auto
    qed
  next
    case (DlClose chs')
    note x = router_close_Inr(1) [OF DlClose(3)]
    with DlClose assms(2) show ?thesis
      by (auto simp: mix_inv_def asked_def proj_defs)
  next
    case (PlayerEnd j cid)
    with assms(2) routed_done [OF PlayerEnd(1)] show ?thesis
      by (auto simp: mix_inv_def asked_def map_pkey_update nth_list_update)
  qed (use assms(2) in \<open>auto simp: mix_inv_def asked_def proj_defs\<close>)
qed

lemma mix_inv_run:
  assumes "run cf (init cf w) ls = Some c" and "mix cf" and "\<not> onlyQuery cf"
  shows "mix_inv cf c"
  using assms(1)
proof (rule run_invariant)
  show "mix_inv cf (init cf w)" using assms(2,3) by (rule mix_inv_init)
qed (rule mix_inv_step)


lemma queued_on_iff: "s \<in> set (concat (map (queued_on cid) tr)) \<longleftrightarrow> EvQueued cid s \<in> set tr"
proof (induction tr)
  case Nil
  then show ?case by simp
next
  case (Cons e tr)
  then show ?case by (cases e) auto
qed

lemma map_of_inj:
  assumes "distinct (map snd routes)" and "map_of routes k = Some x" and "map_of routes k' = Some x"
  shows "k = k'"
proof -
  from assms(2,3) have m: "(k, x) \<in> set routes" "(k', x) \<in> set routes"
    by (auto dest: map_of_SomeD)
  from assms(1) have i: "inj_on snd (set routes)" by (simp add: distinct_map)
  from inj_onD [OF i _ m] show ?thesis by simp
qed

lemma queued_created:
  assumes "all_created cf c"
  shows "set (map query (queued (trace c))) \<subseteq> set (args cf)"
proof -
  have "set (queued (trace c)) \<subseteq> set (concat (map event_sounds (trace c)))"
    unfolding queued_def using queued_sub by (rule concat_map_sub)
  moreover from assms have "set (concat (map event_sounds (trace c))) \<subseteq> set (created cf)"
    by (simp add: all_created_def)
  ultimately have "set (queued (trace c)) \<subseteq> set (created cf)" by (rule subset_trans)
  then show ?thesis using created_fields by auto
qed

lemma routed_keys:
  "set (map pkey (filter (\<lambda>p. pchan p \<noteq> None) ps)) \<subseteq> set (map pkey ps)"
  by auto

lemma all_routed_keys:
  assumes "list_all (\<lambda>p. pchan p \<noteq> None) ps"
  shows "map pkey (filter (\<lambda>p. pchan p \<noteq> None) ps) = map pkey ps"
  using assms by (induction ps) auto

lemma ex_mix_simps [simp]:
  "soundsDir ex_mix = ''/c/sounds''" "pathJoin ex_mix = ex_join" "nsounds ex_mix = 30"
  "onlyQuery ex_mix = False" "onlyDownload ex_mix = False" "shuffle ex_mix = False"
  "mix ex_mix = True" "args ex_mix = [''cafe'', ''rain'', ''cafe'']" "db ex_mix = ex_db"
  by (simp_all add: ex_mix_def ex_conf_def)

lemma ex_mix_run:
  "map_option (\<lambda>c. (router c, chans c, map pchan (players c), trace c,
        list_all (\<lambda>p. pchan p \<noteq> None) (players c)))
     (run ex_mix (init ex_mix ex_world) ex_mix_schedule)
   = Some (MultiPlayersRouter [(''cafe'', 0), (''rain'', 1)],
           [\<lparr>cbuf = [], cclosed = False\<rparr>, \<lparr>cbuf = [ex_rain], cclosed = False\<rparr>],
           [Some 0, Some 1, Some 0],
           [EvQuery ''rain'', EvIntake ex_rain, EvFetch ex_rain, EvQueued 1 ex_rain], True)"
  by (simp add: ex_mix_schedule_def eval_defs ex_db_def ex_join_def ex_world_def ex_http_def
      assetUrl_def AssetsRoot_def ex_rain_def)

lemma ex_mix_d_simps [simp]:
  "soundsDir ex_mix_d = ''/c/sounds''" "pathJoin ex_mix_d = ex_join" "nsounds ex_mix_d = 30"
  "onlyQuery ex_mix_d = False" "onlyDownload ex_mix_d = True" "shuffle ex_mix_d = False"
  "mix ex_mix_d = True" "args ex_mix_d = [''cafe'', ''rain'']" "db ex_mix_d = ex_db"
  by (simp_all add: ex_mix_d_def ex_conf_def)

subsection \<open>The order of the sequential mode\<close>

lemma script_inv_step:
  assumes "exec cf l c = Some c'" and "script_inv S c"
  shows "script_inv S c'"
  using assms(1)
proof (cases rule: exec_cases)
  case (ResolveOk s w' evs)
  with downloader_item_events [OF ResolveOk(2)] assms(2) show ?thesis
    by (auto simp: script_inv_def acts_def)
next
  case (ResolveFail s w' evs e)
  with downloader_item_events [OF ResolveFail(2)] assms(2) show ?thesis
    by (auto simp: script_inv_def acts_def)
qed (use assms(2) in \<open>auto simp: script_inv_def acts_def\<close>)

lemma split_last:
  assumes "xs @ [y] = pre @ x # post"
  shows "(pre = xs \<and> x = y \<and> post = []) \<or> (\<exists>post'. xs = pre @ x # post' \<and> post = post' @ [y])"
proof (cases post rule: rev_cases)
  case Nil
  with assms show ?thesis by simp
next
  case (snoc post' z)
  with assms have "xs @ [y] = (pre @ x # post') @ [z]" by simp
  then have "xs = pre @ x # post'" "y = z" by simp_all
  with snoc show ?thesis by simp
qed

lemma intake_gate_other:
  assumes "intake_gate tr" and "intake_of e = []"
  shows "intake_gate (tr @ [e])"
  unfolding intake_gate_def
proof (intro allI impI)
  fix pre s post
  assume "tr @ [e] = pre @ EvIntake s # post"
  from split_last [OF this] assms(2) obtain post' where "tr = pre @ EvIntake s # post'"
    by auto
  with assms(1) show "intakes pre = outcomes pre" by (auto simp: intake_gate_def)
qed

lemma intake_gate_intake:
  assumes "intake_gate tr" and "intakes tr = outcomes tr"
  shows "intake_gate (tr @ [EvIntake s'])"
  unfolding intake_gate_def
proof (intro allI impI)
  fix pre s post
  assume "tr @ [EvIntake s'] = pre @ EvIntake s # post"
  from split_last [OF this] show "intakes pre = outcomes pre"
  proof
    assume "pre = tr \<and> EvIntake s = EvIntake s' \<and> post = []"
    with assms(2) show ?thesis by simp
  next
    assume "\<exists>post'. tr = pre @ EvIntake s # post' \<and> post = post' @ [EvIntake s']"
    with assms(1) show ?thesis by (auto simp: intake_gate_def)
  qed
qed

lemma intake_gate_step:
  assumes "exec cf l c = Some c'" and "intake_gate (trace c)"
    and "intakes (trace c) = outcomes (trace c) @ inflight (dl c)"
  shows "intake_gate (trace c')"
  using assms(1)
proof (cases rule: exec_cases)
  case (Intake i s rest)
  with assms(2,3) show ?thesis by (simp add: intake_gate_intake)
next
  case (ResolveOk s w' evs)
  with downloader_item_events [OF ResolveOk(2)] assms(2) show ?thesis
    by (auto simp: intake_gate_other)
next
  case (ResolveFail s w' evs e)
  from downloader_item_events [OF ResolveFail(2)] assms(2)
  have "intake_gate (trace c @ evs)" by (auto simp: intake_gate_other)
  then have "intake_gate ((trace c @ evs) @ [EvDropped s e])" by (rule intake_gate_other) simp
  with ResolveFail show ?thesis by simp
qed (use assms(2) in \<open>auto simp: intake_gate_other\<close>)

lemma dsound_acts: "concat (map dsound_of (acts tr)) = intakes tr"
proof (induction tr)
  case Nil
  then show ?case by (simp add: acts_def intakes_def)
next
  case (Cons e tr)
  then show ?case by (cases e) (simp_all add: acts_def intakes_def)
qed

lemma dsound_scan_rows:
  "concat (map dsound_of (scan_rows cf q DownloadCh rows)) = sounds_of (scan_rows cf q DownloadCh rows)"
  by (induction cf q DownloadCh rows rule: scan_rows.induct) simp_all

lemma dsound_queryDatabase:
  "concat (map dsound_of (queryDatabase cf q DownloadCh)) = sounds_of (queryDatabase cf q DownloadCh)"
  by (auto simp: queryDatabase_def dsound_scan_rows split: qresult.splits option.splits)

lemma dsound_script:
  "concat (map dsound_of (concat (map (\<lambda>q. queryDatabase cf q DownloadCh) qs)))
     = concat (map (\<lambda>q. sounds_of (queryDatabase cf q DownloadCh)) qs)"
  by (induction qs) (simp_all add: dsound_queryDatabase)

lemma settledI: "intakes tr = outcomes tr @ inflight d \<Longrightarrow> settled tr"
  by (cases d) (simp_all add: settled_def)

lemma settled_quiet:
  "intake_of e = [] \<Longrightarrow> outcome_of e = [] \<Longrightarrow> settled (tr @ [e]) = settled tr"
  by (simp add: settled_def proj_defs)

lemma always_settled_last: "always_settled tr \<Longrightarrow> settled tr"
  by (simp add: always_settled_def list_all_iff)

lemma prefixes_snoc2: "prefixes (xs @ [a, b]) = prefixes xs @ [xs @ [a], xs @ [a, b]]"
  using prefixes_snoc [of "xs @ [a]" b] by simp

lemma always_settled_step:
  assumes "exec cf l c = Some c'" and "always_settled (trace c)"
    and "intakes (trace c) = outcomes (trace c) @ inflight (dl c)"
  shows "always_settled (trace c')"
proof -
  from intake_step [OF assms(1,3)] have st: "settled (trace c')" by (rule settledI)
  note s0 = always_settled_last [OF assms(2)]
  from assms(1) show ?thesis
  proof (cases rule: exec_cases)
    case (ResolveOk s w' evs)
    with downloader_item_events [OF ResolveOk(2)] assms(2) st show ?thesis
      by (auto simp: always_settled_def)
  next
    case (ResolveFail s w' evs e)
    with downloader_item_events [OF ResolveFail(2)] assms(2) st s0 show ?thesis
      by (auto simp: always_settled_def prefixes_snoc2 settled_quiet)
  qed (use assms(2) st in \<open>auto simp: always_settled_def\<close>)
qed


lemma behind_block:
  assumes "A @ B @ C = pre @ x # post" and "x \<notin> set A" and "x \<notin> set B"
  shows "\<exists>C1. pre = A @ B @ C1 \<and> C = C1 @ x # post"
proof -
  from assms(1) have "(A @ B) @ C = pre @ x # post" by simp
  then obtain us where "(A @ B = pre @ us \<and> us @ C = x # post)
      \<or> ((A @ B) @ us = pre \<and> C = us @ x # post)"
    unfolding append_eq_append_conv2 by blast
  then show ?thesis
  proof
    assume a: "A @ B = pre @ us \<and> us @ C = x # post"
    show ?thesis
    proof (cases us)
      case Nil
      with a show ?thesis by simp
    next
      case (Cons u us')
      with a have "x \<in> set (A @ B)" by (metis append_Cons in_set_conv_decomp list.inject)
      with assms(2,3) show ?thesis by simp
    qed
  next
    assume "(A @ B) @ us = pre \<and> C = us @ x # post"
    then show ?thesis by auto
  qed
qed

lemma scan_rows_tags:
  "a \<in> set (scan_rows cf q out rows) \<Longrightarrow> (\<exists>s. a = ASend out s \<and> query s = q) \<or> (\<exists>e. a = AFatal e)"
  by (induction cf q out rows rule: scan_rows.induct) auto

lemma queryDatabase_tags:
  assumes "a \<in> set (queryDatabase cf q out)"
  shows "a = AQuery q \<or> (\<exists>s. a = ASend out s \<and> query s = q) \<or> (\<exists>e. a = AFatal e)"
  using assms
  by (auto simp: queryDatabase_def split: qresult.splits option.splits dest: scan_rows_tags)

lemma script_tags:
  assumes "a \<in> set (concat (map (\<lambda>q. queryDatabase cf q out) qs))"
  shows "(\<exists>q \<in> set qs. a = AQuery q) \<or> (\<exists>s. a = ASend out s \<and> query s \<in> set qs)
         \<or> (\<exists>e. a = AFatal e)"
  using assms by (auto dest: queryDatabase_tags)

lemma tagged_other:
  assumes "\<And>out s. ASend out s \<in> set xs \<Longrightarrow> query s \<noteq> T"
  shows "filter (\<lambda>s. query s = T) (concat (map dsound_of xs)) = []"
  using assms
proof (induction xs)
  case Nil
  then show ?case by simp
next
  case (Cons a xs)
  then show ?case by (cases a rule: dsound_of.cases) auto
qed

lemma tagged_same:
  "filter (\<lambda>s. query s = T) (sounds_of (queryDatabase cf T out)) = sounds_of (queryDatabase cf T out)"
  by (auto simp: filter_id_conv dest: queryDatabase_fields)

lemma block_taken:
  assumes "concat (map (\<lambda>q. queryDatabase cf q DownloadCh) (as1 @ T1 # as2)) = A @ x # X"
    and "T1 \<notin> set as1" and "T1 \<notin> set as2"
    and "x \<notin> set (concat (map (\<lambda>q. queryDatabase cf q DownloadCh) as1))"
    and "x \<notin> set (queryDatabase cf T1 DownloadCh)"
  shows "filter (\<lambda>s. query s = T1) (concat (map dsound_of A))
           = sounds_of (queryDatabase cf T1 DownloadCh)"
proof -
  let ?S = "\<lambda>q. queryDatabase cf q DownloadCh"
  from assms(1) have "concat (map ?S as1) @ ?S T1 @ concat (map ?S as2) = A @ x # X" by simp
  from behind_block [OF this assms(4,5)] obtain C1 where
    c: "A = concat (map ?S as1) @ ?S T1 @ C1" "concat (map ?S as2) = C1 @ x # X"
    by blast
  have 1: "filter (\<lambda>s. query s = T1) (concat (map dsound_of (concat (map ?S as1)))) = []"
  proof (rule tagged_other)
    fix out s assume "ASend out s \<in> set (concat (map ?S as1))"
    from script_tags [OF this] assms(2) show "query s \<noteq> T1" by auto
  qed
  have 2: "filter (\<lambda>s. query s = T1) (concat (map dsound_of C1)) = []"
  proof (rule tagged_other)
    fix out s assume "ASend out s \<in> set C1"
    with c(2) have "ASend out s \<in> set (concat (map ?S as2))" by simp
    from script_tags [OF this] assms(3) show "query s \<noteq> T1" by auto
  qed
  from c(1) 1 2 show ?thesis by (simp add: dsound_queryDatabase tagged_same)
qed

lemma ex_repeat_simps [simp]:
  "soundsDir ex_repeat = ''/c/sounds''" "pathJoin ex_repeat = ex_join" "nsounds ex_repeat = 30"
  "onlyQuery ex_repeat = False" "onlyDownload ex_repeat = False" "shuffle ex_repeat = False"
  "mix ex_repeat = False" "args ex_repeat = [''cafe'', ''rain'', ''cafe'']" "db ex_repeat = ex_db"
  by (simp_all add: ex_repeat_def ex_conf_def)

lemma ex_run_next:
  "map_option (\<lambda>c. (trace c))
     (run ex_conf (init ex_conf ex_world) ex_schedule_next)
   = Some ([EvQuery ''cafe'', EvIntake ex_cafe, EvCached ex_cafe, EvQueued 0 ex_cafe,
            EvPlaying 0 ex_cafe, EvQuery ''rain''] @ EvIntake ex_rain # [])"
  by (simp add: ex_schedule_next_def ex_schedule_def eval_defs ex_db_def ex_join_def ex_world_def
      ex_cafe_def ex_rain_def)

lemma ex_run_early:
  "map_option trace (run ex_conf (init ex_conf ex_world) [LProd 0, LProd 0, LProd 0])
     = Some ([EvQuery ''cafe'', EvIntake ex_cafe] @ EvQuery ''rain'' # [])"
  by (simp add: eval_defs ex_db_def ex_join_def ex_cafe_def)

subsection \<open>The preview mode\<close>

lemma preview_inv_init: "onlyQuery cf \<Longrightarrow> preview_inv cf w (init cf w)"
  by (simp add: preview_inv_def init_preview printed_def)

lemma exec_running: "exec cf l c = Some c' \<Longrightarrow> halted c = None"
  by (simp add: exec_def split: if_splits)

lemma preview_inv_step:
  assumes "exec cf l c = Some c'" and "preview_inv cf w c" and "onlyQuery cf"
    and "all_created cf c" and "length (producers c) = 1"
  shows "preview_inv cf w c'"
  using assms(1)
proof (cases rule: exec_cases)
  case (Exit i rest)
  with assms(2,5) show ?thesis by (auto simp: preview_inv_def)
next
  case (Print k s)
  from assms(4) Print(1,2) have "s \<in> set (created cf)" by (simp add: all_created_def)
  with Print assms(2) show ?thesis by (auto simp: preview_inv_def printed_def)
qed (use assms(2,3) exec_running [OF assms(1)] in \<open>auto simp: preview_inv_def printed_def\<close>)

lemma scan_rows_no_exit: "AExit \<notin> set (scan_rows cf q out rows)"
  by (induction cf q out rows rule: scan_rows.induct) simp_all

lemma queryDatabase_no_exit: "AExit \<notin> set (queryDatabase cf q out)"
  by (auto simp: queryDatabase_def scan_rows_no_exit split: qresult.splits option.splits)

lemma acts_no_exit: "AExit \<notin> set (acts tr)"
proof (induction tr)
  case Nil
  then show ?case by (simp add: acts_def)
next
  case (Cons e tr)
  then show ?case by (cases e) (simp_all add: acts_def)
qed

lemma sounds_acts_preview:
  "list_all (\<lambda>e. \<not> is_playback e) tr \<Longrightarrow> sounds_of (acts tr) = received tr"
proof (induction tr)
  case Nil
  then show ?case by (simp add: acts_def received_def)
next
  case (Cons e tr)
  then show ?case by (cases e) (simp_all add: acts_def received_def)
qed

lemma last_action:
  assumes "xs @ a # rest = ys @ [a]" and "a \<notin> set ys"
  shows "xs = ys \<and> rest = []"
proof (cases rest rule: rev_cases)
  case Nil
  with assms(1) show ?thesis by simp
next
  case (snoc rest' z)
  with assms(1) have "(xs @ a # rest') @ [z] = ys @ [a]" by simp
  then have "ys = xs @ a # rest'" by simp
  with assms(2) show ?thesis by simp
qed

lemma preview_script_body:
  "\<exists>ys. preview_script cf = ys @ [AExit] \<and> AExit \<notin> set ys \<and> sounds_of ys = created cf"
proof -
  let ?ys = "concat (map (\<lambda>(k, q). ASpawn # queryDatabase cf q (PrinterCh k))
      (enumerate 0 (args cf)))"
  have "preview_script cf = ?ys @ [AExit]" by (simp add: preview_script_def)
  moreover have "AExit \<notin> set ?ys" by (auto simp: queryDatabase_no_exit)
  moreover from sounds_preview_script [of cf] have "sounds_of ?ys = created cf"
    by (simp add: preview_script_def)
  ultimately show ?thesis by blast
qed

lemma preview_inv_run:
  assumes "run cf (init cf w) ls = Some c" and "onlyQuery cf"
  shows "preview_inv cf w c \<and> script_inv (preview_script cf) c"
proof -
  have "preview_inv cf w c \<and> script_inv (preview_script cf) c \<and> all_created cf c \<and> fifo c"
    using assms(1)
  proof (rule run_invariant)
    show "preview_inv cf w (init cf w) \<and> script_inv (preview_script cf) (init cf w)
        \<and> all_created cf (init cf w) \<and> fifo (init cf w)"
      using assms(2)
      by (simp add: preview_inv_init all_created_init fifo_init script_inv_def init_preview acts_def)
  next
    fix c l c'
    assume h: "preview_inv cf w c \<and> script_inv (preview_script cf) c \<and> all_created cf c \<and> fifo c"
      and e: "exec cf l c = Some c'"
    from h have wf: "wf_router (router c) (chans c)" and len: "length (producers c) = 1"
      by (simp_all add: fifo_def script_inv_def)
    from h preview_inv_step [OF e _ assms(2) _ len] script_inv_step [OF e]
      all_created_step [OF e _ wf] fifo_step [OF e]
    show "preview_inv cf w c' \<and> script_inv (preview_script cf) c' \<and> all_created cf c' \<and> fifo c'"
      by blast
  qed
  then show ?thesis by simp
qed

lemma ex_preview_simps [simp]:
  "soundsDir ex_preview = ''/c/sounds''" "pathJoin ex_preview = ex_join" "nsounds ex_preview = 30"
  "onlyQuery ex_preview = True" "onlyDownload ex_preview = False" "shuffle ex_preview = False"
  "mix ex_preview = False" "args ex_preview = [''cafe'', ''rain'']" "db ex_preview = ex_db"
  by (simp_all add: ex_preview_def ex_conf_def)

lemma ex_preview_run:
  "map_option (\<lambda>c. (printed (trace c), received (trace c), halted c, producers c))
     (run ex_preview (init ex_preview ex_world) ex_preview_schedule)
   = Some ([''Cafe ambience /c/sounds/07001.wav'' @ [CHR 0x0A],
            ''Rain on roof http://bbcsfx.acropolis.org.uk/assets/07002.wav'' @ [CHR 0x0A]],
           [ex_cafe, ex_rain], Some 0, [[AExit]])"
  by (simp add: ex_preview_schedule_def eval_defs enumerate_eq_zip proj_defs ex_db_def ex_join_def
      ex_world_def assetUrl_def AssetsRoot_def ex_cafe_def ex_rain_def)

lemma sum_held_update:
  assumes "k < length xs"
  shows "sum_list (map held (xs[k := y])) + held (xs ! k) = sum_list (map held xs) + held y"
  using assms
proof (induction xs arbitrary: k)
  case Nil
  then show ?case by simp
next
  case (Cons x xs)
  then show ?case by (cases k) auto
qed

lemma unprinted_step:
  assumes "exec cf l c = Some c'"
    and "length (printed (trace c)) + unprinted c = length (received (trace c))"
  shows "length (printed (trace c')) + unprinted c' = length (received (trace c'))"
  using assms(1)
proof (cases rule: exec_cases)
  case (Receive i k s rest)
  with sum_held_update [OF Receive(3), of "Some s"] assms(2) show ?thesis
    by (simp add: unprinted_def proj_defs)
next
  case (Print k s)
  with sum_held_update [OF Print(1), of None] assms(2) show ?thesis
    by (simp add: unprinted_def proj_defs)
next
  case (ResolveOk s w' evs)
  with downloader_item_events [OF ResolveOk(2)] assms(2) show ?thesis
    by (auto simp: unprinted_def proj_defs)
next
  case (ResolveFail s w' evs e)
  with downloader_item_events [OF ResolveFail(2)] assms(2) show ?thesis
    by (auto simp: unprinted_def proj_defs)
qed (use assms(2) in \<open>auto simp: unprinted_def proj_defs\<close>)

lemma unprinted_run:
  assumes "run cf (init cf w) ls = Some c"
  shows "length (printed (trace c)) + unprinted c = length (received (trace c))"
  using assms
proof (rule run_invariant)
  show "length (printed (trace (init cf w))) + unprinted (init cf w)
      = length (received (trace (init cf w)))"
    by (cases "onlyQuery cf") (simp_all add: unprinted_def proj_defs init_pipeline init_preview)
qed (rule unprinted_step)

subsection \<open>No panic, one close\<close>

lemma route_Inl: "route r chs q = Inl p \<Longrightarrow> r = NilRouter"
  by (cases r) (auto split: prod.splits)

lemma router_close_succeeds:
  assumes "wf_router r chs" and "r \<noteq> NilRouter" and "\<forall>i < length chs. \<not> cclosed (chs ! i)"
  shows "\<exists>chs'. router_close r chs = Inr chs'"
proof (cases r)
  case NilRouter
  with assms(2) show ?thesis by simp
next
  case (SinglePlayersRouter c)
  with assms(1,3) show ?thesis by (simp add: singlePlayersRouter_close_def chan_close_def)
next
  case (MultiPlayersRouter routes)
  with assms(1,3) close_all_succeeds [of "map snd routes" chs] show ?thesis
    by (auto simp: multiPlayersRouter_close_def list_all_iff)
qed

lemma filter_absent: "x \<notin> set xs \<Longrightarrow> filter (\<lambda>e. e = x) xs = []"
  by (induction xs) auto

lemma safe_init: "safe (init cf w)"
  by (cases "onlyQuery cf") (auto simp: safe_def init_pipeline init_preview make_chan_def)

lemma safe_step:
  assumes "exec cf l c = Some c'" and "safe c"
  shows "safe c'"
proof -
  from assms(2) have wf: "wf_router (router c) (chans c)" by (simp add: safe_def)
  from assms(1) show ?thesis
  proof (cases rule: exec_cases)
    case (ResolveOk s w' evs)
    with downloader_item_events [OF ResolveOk(2)] assms(2) show ?thesis
      by (auto simp: safe_def)
  next
    case (ResolveFail s w' evs e)
    with downloader_item_events [OF ResolveFail(2)] assms(2) show ?thesis
      by (auto simp: safe_def)
  next
    case (Send s cid r' chs')
    note r = route_Inr [OF Send(2) wf]
    from Send(2) have n: "r' = NilRouter \<Longrightarrow> router c = NilRouter"
      by (cases "router c") (auto split: prod.splits)
    from r(3) Send assms(2) r(1,2) n show ?thesis
      by (auto simp: safe_def nth_list_update nth_append make_chan_def less_Suc_eq split: if_splits)
  next
    case (SendNil s p)
    with route_Inl [OF SendNil(2)] assms(2) show ?thesis by (simp add: safe_def)
  next
    case (SendClosed s cid r' chs')
    note r = route_Inr [OF SendClosed(2) wf]
    from r(2,3) SendClosed(1,3) assms(2) have False
      by (auto simp: safe_def nth_append make_chan_def)
    then show ?thesis ..
  next
    case (DlClose chs')
    note r = router_close_Inr [OF DlClose(3)]
    have "wf_router (router c) chs'" using wf r(1) wf_router_length by blast
    with DlClose assms(2) show ?thesis by (auto simp: safe_def filter_absent)
  next
    case (ClosePanic p)
    from ClosePanic(1) assms(2) have "router c \<noteq> NilRouter"
      "\<forall>i < length (chans c). \<not> cclosed (chans c ! i)"
      by (auto simp: safe_def)
    from router_close_succeeds [OF wf this] ClosePanic(3) have False by simp
    then show ?thesis ..
  next
    case (PlayerRoute j cid r' chs')
    note r = route_Inr [OF PlayerRoute(3) wf]
    from PlayerRoute(3) have n: "r' = NilRouter \<Longrightarrow> router c = NilRouter"
      by (cases "router c") (auto split: prod.splits)
    from r(3) PlayerRoute assms(2) r(1,2) n show ?thesis
      by (auto simp: safe_def nth_append make_chan_def less_Suc_eq split: if_splits)
  next
    case (RoutePanic j p)
    with route_Inl [OF RoutePanic(3)] assms(2) show ?thesis by (auto simp: safe_def)
  next
    case (PlayerRecv j cid s b)
    with assms(2) show ?thesis by (auto simp: safe_def nth_list_update)
  qed (use assms(2) in \<open>auto simp: safe_def\<close>)
qed

lemma router_closed_once:
  assumes "run cf (init cf w) ls = Some c"
  shows "halted c \<noteq> Some 2 \<and> (\<forall>p. EvPanic p \<notin> set (trace c))
         \<and> length (filter (\<lambda>e. e = EvRouterClose) (trace c)) \<le> 1
         \<and> (EvRouterClose \<in> set (trace c) \<longrightarrow> in_closed c \<and> dl c = DDone)
         \<and> (dl c \<noteq> DDone \<longrightarrow> (\<forall>i < length (chans c). \<not> cclosed (chans c ! i)))"
proof -
  have "safe c" using assms by (rule run_invariant) (rule safe_init, rule safe_step)
  then show ?thesis
    by (cases "dl c = DDone") (auto simp: safe_def filter_absent)
qed


subsection \<open>A run with more items than a channel holds\<close>

lemma run_append:
  "run cf c (xs @ ys) = (case run cf c xs of None \<Rightarrow> None | Some c' \<Rightarrow> run cf c' ys)"
  by (induction xs arbitrary: c) (auto split: option.splits)

lemma ex_many_simps [simp]:
  "soundsDir ex_many = ''/c/sounds''" "pathJoin ex_many = ex_join" "nsounds ex_many = 31"
  "onlyQuery ex_many = False" "onlyDownload ex_many = True" "shuffle ex_many = False"
  "mix ex_many = True" "args ex_many = [''cafe'']" "db ex_many = ex_db_many"
  by (simp_all add: ex_many_def ex_conf_def)

lemma scan_rows_map:
  "scan_rows cf q out (map (\<lambda>k. Inr (f k, d, sc)) ks)
     = map (\<lambda>k. ASend out \<lparr>descr = d, fname = f k, fpath = soundPath cf (f k), query = q,
         secs = sc\<rparr>) ks"
  by (induction ks) simp_all

lemma ex_many_script:
  "queryDatabase ex_many ''cafe'' DownloadCh
     = AQuery ''cafe'' # map (\<lambda>i. ASend DownloadCh (ex_item i)) [0..<31]"
  by (simp add: queryDatabase_def ex_db_many_def scan_rows_map soundPath_def ex_join_def
      ex_item_def del: upt_Suc)

lemma map_of_const:
  "k \<in> set ks \<Longrightarrow> map_of (map (\<lambda>k. (f k, v)) ks) (f k) = Some v"
  by (induction ks) auto

lemma ex_item_cached:
  assumes "k < 31"
  shows "downloader_item ex_many ex_world_many (ex_item k)
           = (ex_world_many, [EvCached (ex_item k)], None)"
proof -
  have "files ex_world_many (''/c/sounds/'' @ ex_loc k) = Some [1]"
    using assms map_of_const [of k "[0..<31]" "\<lambda>k. ''/c/sounds/'' @ ex_loc k" "[1]"]
    by (simp add: ex_world_many_def del: upt_Suc)
  moreover have "stat_fault ex_world_many = Map.empty"
    by (simp add: ex_world_many_def ex_world_def)
  ultimately show ?thesis
    by (simp add: downloader_item_def fileExists_def os_Stat_def soundPath_def ex_join_def
        ex_item_def)
qed

lemma ex_fill_start:
  "run ex_many (init ex_many ex_world_many) [LPlayerRoute 0, LProd 0] = Some (ex_fill 0)"
  by (simp add: ex_fill_def ex_many_script exec_defs init_def inquirers_def launch_players_def
      new_player_def newMultiPlayersRouter_def multiPlayersRouter_route_def del: upt_Suc)


lemma ex_fill_step:
  assumes "k < 30"
  shows "run ex_many (ex_fill k) [LProd 0, LResolve, LSend] = Some (ex_fill (Suc k))"
proof -
  from assms have u: "[k..<31] = k # [Suc k..<31]" by (simp add: upt_conv_Cons)
  from assms have d: "downloader_item ex_many ex_world_many (ex_item k)
      = (ex_world_many, [EvCached (ex_item k)], None)"
    by (simp add: ex_item_cached)
  have q: "query (ex_item k) = ''cafe''" by (simp add: ex_item_def)
  show ?thesis
  proof (cases "k = 0")
    case True
    have "[0..<Suc 0] = [0]" by simp
    with True u d q show ?thesis
      by (simp add: ex_fill_def exec_defs multiPlayersRouter_route_def make_chan_def
          PlayerChannelSize_def ex_log_def del: upt_Suc)
  next
    case False
    with u d q assms show ?thesis
      by (simp add: ex_fill_def exec_defs multiPlayersRouter_route_def make_chan_def
          PlayerChannelSize_def ex_log_def)
  qed
qed

lemma ex_fill_steps:
  "k + n \<le> 30 \<Longrightarrow>
     run ex_many (ex_fill k) (concat (replicate n [LProd 0, LResolve, LSend]))
       = Some (ex_fill (k + n))"
proof (induction n arbitrary: k)
  case 0
  then show ?case by simp
next
  case (Suc n)
  from Suc.prems have "k < 30" "Suc k + n \<le> 30" by simp_all
  with Suc.IH [of "Suc k"] ex_fill_step [of k]
  have "run ex_many (ex_fill k) ([LProd 0, LResolve, LSend]
      @ concat (replicate n [LProd 0, LResolve, LSend])) = Some (ex_fill (Suc k + n))"
    by (simp only: run_append option.case)
  then show ?case by simp
qed

lemma ex_fill_end:
  "run ex_many (ex_fill 30) [LProd 0, LResolve, LCloseIntake] = Some ex_full"
proof -
  have u: "[30..<31] = [30::nat]" by (simp add: upt_conv_Cons)
  have d: "downloader_item ex_many ex_world_many (ex_item 30)
      = (ex_world_many, [EvCached (ex_item 30)], None)"
    by (simp add: ex_item_cached)
  from u d show ?thesis
    by (simp add: ex_fill_def ex_full_def exec_defs del: upt_Suc)
qed

lemma ex_many_run: "run ex_many (init ex_many ex_world_many) ex_many_schedule = Some ex_full"
  using ex_fill_start ex_fill_steps [of 0 30] ex_fill_end
  by (simp only: ex_many_schedule_def run_append option.case add_0 le_refl)

lemma ex_full_blocked: "exec ex_many l ex_full = None"
  by (cases l)
    (auto simp: ex_full_def ex_fill_def exec_defs multiPlayersRouter_route_def make_chan_def
      PlayerChannelSize_def ex_item_def less_Suc_eq_0_disj split: option.splits list.splits
      simp del: upt_Suc)

lemma ex_log_counts:
  "intakes (concat (map ex_log ks)) = map ex_item ks"
  "queued (concat (map ex_log ks)) = map ex_item ks"
  "dropped (concat (map ex_log ks)) = []"
  by (induction ks) (simp_all add: proj_defs ex_log_def)

subsection \<open>What the downloader decides\<close>

lemma same_env_refl: "same_env w w"
  by (simp add: same_env_def)

lemma same_env_trans: "same_env w w1 \<Longrightarrow> same_env w1 w2 \<Longrightarrow> same_env w w2"
  by (auto simp: same_env_def)

lemma downloadFile_env: "downloadFile w p u = (w', e) \<Longrightarrow> same_env w w'"
  by (auto simp: downloadFile_def os_Create_def io_Copy_def same_env_def Let_def
      split: sum.splits if_splits option.splits)

lemma downloadFile_error:
  assumes "same_env w w1"
  shows "snd (downloadFile w1 p u) = snd (downloadFile w p u)"
  using assms
  by (auto simp: downloadFile_def os_Create_def io_Copy_def same_env_def Let_def
      split: sum.splits if_splits option.splits)

lemma downloadFile_present:
  "downloadFile w p u = (w', None) \<Longrightarrow> files w' p \<noteq> None"
  by (auto simp: downloadFile_def os_Create_def io_Copy_def Let_def
      split: sum.splits if_splits option.splits)

lemma downloader_item_env: "downloader_item cf w s = (w', evs, e) \<Longrightarrow> same_env w w'"
  by (auto simp: downloader_item_def same_env_refl split: prod.splits if_splits
      dest: downloadFile_env)

lemma downloader_item_ok:
  assumes "downloader_item cf w s = (w', evs, None)"
  shows "files w' (soundPath cf (fname s)) \<noteq> None \<and> stat_ok w (soundPath cf (fname s))"
  using assms
  by (auto simp: downloader_item_def fileExists_def os_Stat_def stat_ok_def os_IsNotExist_def
      split: prod.splits if_splits option.splits dest: downloadFile_present)

lemma downloader_item_failed:
  assumes "downloader_item cf w s = (w', evs, Some e)"
  shows "failed cf w s e"
  using assms
  by (auto simp: downloader_item_def fileExists_def os_Stat_def stat_ok_def failed_def
      os_IsNotExist_def split: prod.splits if_splits option.splits)


lemma drops_dropped: "map fst (drops tr) = dropped tr"
proof (induction tr)
  case Nil
  then show ?case by (simp add: drops_def dropped_def)
next
  case (Cons e tr)
  then show ?case by (cases e) (simp_all add: drops_def dropped_def)
qed

lemma retrieved_init: "retrieved cf w (init cf w)"
  by (cases "onlyQuery cf")
    (simp_all add: retrieved_def same_env_refl init_fields init_pipeline init_preview proj_defs
      drops_def)

lemma retrieved_step:
  assumes "exec cf l c = Some c'" and "retrieved cf w c"
  shows "retrieved cf w c'"
proof -
  from assms(2) have env: "same_env w (world c)"
    and q: "\<And>s. s \<in> set (queued (trace c)) \<or> dl c = DSending s \<Longrightarrow>
             files (world c) (soundPath cf (fname s)) \<noteq> None
             \<and> stat_ok w (soundPath cf (fname s))"
    and d: "\<And>s e. (s, e) \<in> set (drops (trace c)) \<Longrightarrow> failed cf w s e"
    unfolding retrieved_def by blast+
  from assms(1) show ?thesis
  proof (cases rule: exec_cases)
    case (ResolveOk s w' evs)
    note e1 = downloader_item_env [OF ResolveOk(2)]
    note ok = downloader_item_ok [OF ResolveOk(2)]
    from env have sf: "stat_fault (world c) = stat_fault w" by (simp add: same_env_def)
    from ok sf have ok': "files w' (soundPath cf (fname s)) \<noteq> None"
      "stat_ok w (soundPath cf (fname s))"
      by (simp_all add: stat_ok_def)
    have keep: "files w' p \<noteq> None" if "files (world c) p \<noteq> None" for p
      using e1 that by (auto simp: same_env_def)
    from downloader_item_events [OF ResolveOk(2)]
    have t: "queued (trace c') = queued (trace c)" "drops (trace c') = drops (trace c)"
      using ResolveOk(3) by (auto simp: proj_defs drops_def)
    show ?thesis unfolding retrieved_def
    proof (intro conjI allI impI)
      show "same_env w (world c')" using same_env_trans [OF env e1] ResolveOk(3) by simp
    next
      fix s' assume "s' \<in> set (queued (trace c')) \<or> dl c' = DSending s'"
      with t ResolveOk(1,3) have "s' \<in> set (queued (trace c)) \<or> s' = s" by auto
      then show "files (world c') (soundPath cf (fname s')) \<noteq> None"
        using q [of s'] ok' keep ResolveOk(3) by auto
    next
      fix s' assume "s' \<in> set (queued (trace c')) \<or> dl c' = DSending s'"
      with t ResolveOk(1,3) have "s' \<in> set (queued (trace c)) \<or> s' = s" by auto
      then show "stat_ok w (soundPath cf (fname s'))"
        using q [of s'] ok' by auto
    next
      fix s' e assume "(s', e) \<in> set (drops (trace c'))"
      with t d show "failed cf w s' e" by simp
    qed
  next
    case (ResolveFail s w' evs e)
    note e1 = downloader_item_env [OF ResolveFail(2)]
    from downloader_item_failed [OF ResolveFail(2)] env downloadFile_error [OF env]
    have f: "failed cf w s e"
      by (simp add: failed_def same_env_def stat_ok_def)
    have keep: "files w' p \<noteq> None" if "files (world c) p \<noteq> None" for p
      using e1 that by (auto simp: same_env_def)
    from downloader_item_events [OF ResolveFail(2)]
    have t: "queued (trace c') = queued (trace c)"
      "drops (trace c') = drops (trace c) @ [(s, e)]"
      using ResolveFail(3) by (auto simp: proj_defs drops_def)
    show ?thesis unfolding retrieved_def
    proof (intro conjI allI impI)
      show "same_env w (world c')" using same_env_trans [OF env e1] ResolveFail(3) by simp
    next
      fix s' assume "s' \<in> set (queued (trace c')) \<or> dl c' = DSending s'"
      with t ResolveFail(1,3) have "s' \<in> set (queued (trace c))" by auto
      then show "files (world c') (soundPath cf (fname s')) \<noteq> None"
        using q [of s'] keep ResolveFail(3) by auto
    next
      fix s' assume "s' \<in> set (queued (trace c')) \<or> dl c' = DSending s'"
      with t ResolveFail(1,3) have "s' \<in> set (queued (trace c))" by auto
      then show "stat_ok w (soundPath cf (fname s'))"
        using q [of s'] by auto
    next
      fix s' e' assume "(s', e') \<in> set (drops (trace c'))"
      with t d f show "failed cf w s' e'" by auto
    qed
  next
    case (Send s cid r' chs')
    with assms(2) show ?thesis
      by (auto simp: retrieved_def proj_defs drops_def)
  qed (use assms(2) in \<open>auto simp: retrieved_def proj_defs drops_def\<close>)
qed

lemma retrieved_run:
  assumes "run cf (init cf w) ls = Some c"
  shows "retrieved cf w c"
  using assms by (rule run_invariant) (rule retrieved_init, rule retrieved_step)

section \<open>The cache check and the fetch\<close>

text \<open>
  Claim C4, as the code has it. When \<^verbatim>\<open>os.Stat\<close> of the cache path fails, the downloader
  fetches the item only if the error says the file does not exist (the cache miss). With
  any other error of the existence check, \<^verbatim>\<open>fileExists\<close> returns that error, the first
  \<^verbatim>\<open>if err == nil\<close> is skipped, so no fetch is attempted, and the item is logged and
  dropped.
\<close>

theorem cache_check_outcome:
  assumes "dl c = DHolding s" and "os_Stat (world c) (soundPath cf (fname s)) = Some e"
  shows "downloader_item cf (world c) s =
           (if os_IsNotExist e
            then (case downloadFile (world c) (soundPath cf (fname s)) (assetUrl (fname s)) of
                    (w', e') \<Rightarrow> (w', [EvFetch s], e'))
            else (world c, [], Some e))
         \<and> exec_resolve cf c =
           (if os_IsNotExist e
            then (case downloadFile (world c) (soundPath cf (fname s)) (assetUrl (fname s)) of
                    (w', None) \<Rightarrow> Some (emit [EvFetch s] (c\<lparr>world := w', dl := DSending s\<rparr>))
                  | (w', Some e') \<Rightarrow>
                      Some (emit [EvFetch s, EvDropped s e'] (c\<lparr>world := w', dl := DIdle\<rparr>)))
            else Some (emit [EvDropped s e] (c\<lparr>dl := DIdle\<rparr>)))"
  using assms
  by (auto simp: downloader_item_def fileExists_def exec_resolve_def split: prod.splits option.splits)

text \<open>
  Claim C4 as stated fails: the cache path of the item cannot be examined (permission
  denied), and the downloader drops the item without a fetch: nothing is logged but the
  error, and the world is as before.
\<close>

theorem stat_error_not_fetched:
  "fileExists ex_world_denied (soundPath ex_conf (fname ex_rain))
     = (False, Some (ErrOther ''permission denied''))
   \<and> downloader_item ex_conf ex_world_denied ex_rain
     = (ex_world_denied, [], Some (ErrOther ''permission denied''))
   \<and> map_option (\<lambda>c. (dl c, trace c, world c))
        (exec_resolve ex_conf ((init ex_conf ex_world_denied)\<lparr>dl := DHolding ex_rain\<rparr>))
     = Some (DIdle, [EvDropped ex_rain (ErrOther ''permission denied'')], ex_world_denied)"
proof -
  have f: "fileExists ex_world_denied (soundPath ex_conf (fname ex_rain))
      = (False, Some (ErrOther ''permission denied''))"
    by (simp add: ex_world_denied_def ex_soundPath fileExists_def os_Stat_def os_IsNotExist_def
        ex_rain_def ex_world_def)
  have d: "downloader_item ex_conf ex_world_denied ex_rain
      = (ex_world_denied, [], Some (ErrOther ''permission denied''))"
    using f by (simp add: downloader_item_def)
  have i: "world ((init ex_conf ex_world_denied)\<lparr>dl := DHolding ex_rain\<rparr>) = ex_world_denied"
    "trace ((init ex_conf ex_world_denied)\<lparr>dl := DHolding ex_rain\<rparr>) = []"
    by (simp_all add: init_def newSinglePlayersRouter_def)
  show ?thesis using f d i by (simp add: exec_resolve_def emit_def)
qed

theorem cache_check_outcome_witness:
  "os_Stat ex_world (soundPath ex_conf (fname ex_rain)) = Some ErrNotExist
   \<and> map_option (\<lambda>c. (dl c, trace c, files (world c) ''/c/sounds/07002.wav''))
        (exec_resolve ex_conf ((init ex_conf ex_world)\<lparr>dl := DHolding ex_rain\<rparr>))
     = Some (DSending ex_rain, [EvFetch ex_rain], Some [7, 8, 9])"
proof -
  let ?c = "(init ex_conf ex_world)\<lparr>dl := DHolding ex_rain\<rparr>"
  have i: "world ?c = ex_world" "trace ?c = []" "dl ?c = DHolding ex_rain"
    by simp_all
  have p: "soundPath ex_conf (fname ex_rain) = ''/c/sounds/07002.wav''" "fname ex_rain = ''07002.wav''"
    by (simp_all add: ex_soundPath ex_rain_def)
  have h0: "os_Stat ex_world ''/c/sounds/07002.wav'' = Some ErrNotExist"
    by (simp add: os_Stat_def ex_world_def)
  then have h: "os_Stat (world ?c) (soundPath ex_conf (fname ex_rain)) = Some ErrNotExist"
    by (simp add: i p ex_soundPath)
  from cache_check_outcome [OF i(3) h] h0 show ?thesis
    by (simp add: i p ex_soundPath ex_download_ok os_IsNotExist_def emit_def)
qed

text \<open>
  Claim C6, as the code has it. \<^verbatim>\<open>downloadFile\<close> writes create-then-populate, directly
  at the cache path. Once the response is a 200 and the file could be created, the file is
  there and holds a prefix of the payload; it holds the whole payload when \<^verbatim>\<open>downloadFile\<close>
  returns no error; and in either case the existence check, a presence test, reports the
  file as present.
\<close>

theorem download_create_then_populate:
  assumes "http w url = Inr resp" and "status resp = 200" and "create_fault w fp = None"
    and "downloadFile w fp url = (w', e)"
  shows "(\<exists>n. files w' fp = Some (take n (body resp)))
         \<and> (e = None \<longrightarrow> files w' fp = Some (body resp))
         \<and> (stat_fault w fp = None \<longrightarrow> fileExists w' fp = (True, None))"
  using assms
  by (auto simp: downloadFile_def os_Create_def io_Copy_def Let_def fileExists_def os_Stat_def
      split: option.splits if_splits intro: exI[of _ "length (body resp)"])

text \<open>
  Claim C6 as stated fails: the device takes one byte of the three of the payload, the
  fetch fails, the file of one byte stays at the cache path, the existence check finds it,
  and the downloader, meeting the item again, takes it as cached and resolves it.
\<close>

theorem half_written_file_taken_as_cached:
  "downloadFile ex_world_full (soundPath ex_conf (fname ex_rain)) (assetUrl (fname ex_rain))
     = (ex_world_half, Some (ErrOther ''write failed''))
   \<and> files ex_world_half (soundPath ex_conf (fname ex_rain)) = Some [7]
   \<and> fileExists ex_world_half (soundPath ex_conf (fname ex_rain)) = (True, None)
   \<and> downloader_item ex_conf ex_world_half ex_rain = (ex_world_half, [EvCached ex_rain], None)"
proof -
  have p: "soundPath ex_conf (fname ex_rain) = ''/c/sounds/07002.wav''" "fname ex_rain = ''07002.wav''"
    by (simp_all add: ex_soundPath ex_rain_def)
  have f: "files ex_world_half ''/c/sounds/07002.wav'' = Some [7]"
    "stat_fault ex_world_half ''/c/sounds/07002.wav'' = None"
    by (simp_all add: ex_world_half_def ex_world_full_def ex_world_def)
  have e: "fileExists ex_world_half ''/c/sounds/07002.wav'' = (True, None)"
    using f by (simp add: fileExists_def os_Stat_def)
  show ?thesis using p f e ex_download_half by (simp add: downloader_item_def)
qed

theorem download_create_then_populate_witness:
  "files (fst (downloadFile ex_world ''/c/sounds/07002.wav'' (assetUrl ''07002.wav'')))
      ''/c/sounds/07002.wav'' = Some [7, 8, 9]
   \<and> snd (downloadFile ex_world ''/c/sounds/07002.wav'' (assetUrl ''07002.wav'')) = None
   \<and> snd (downloadFile ex_world_full ''/c/sounds/07002.wav'' (assetUrl ''07002.wav''))
       = Some (ErrOther ''write failed'')
   \<and> fileExists ex_world_half ''/c/sounds/07002.wav'' = (True, None)"
proof -
  have c: "create_fault ex_world ''/c/sounds/07002.wav'' = None"
    "create_fault ex_world_full ''/c/sounds/07002.wav'' = None"
    "stat_fault ex_world_full ''/c/sounds/07002.wav'' = None"
    by (simp_all add: ex_world_def ex_world_full_def)
  from download_create_then_populate [OF ex_http_rain(2) _ c(1) ex_download_ok]
  have 1: "files (ex_world\<lparr>files := (files ex_world)(''/c/sounds/07002.wav'' \<mapsto> [7, 8, 9])\<rparr>)
      ''/c/sounds/07002.wav'' = Some [7, 8, 9]"
    by simp
  from download_create_then_populate [OF ex_http_rain(1) _ c(2) ex_download_half] c(3)
  have 2: "fileExists ex_world_half ''/c/sounds/07002.wav'' = (True, None)"
    by simp
  show ?thesis using 1 2 ex_download_ok ex_download_half by simp
qed

section \<open>The routers\<close>

text \<open>
  Claim C10. On the \<^verbatim>\<open>multiPlayersRouter\<close>, a \<^verbatim>\<open>route(k)\<close> that follows \<^verbatim>\<open>close()\<close>, for a key
  \<open>k\<close> never routed before, makes a new channel: it is open and empty, it is none of the
  channels that \<^verbatim>\<open>close()\<close> closed (all of which are closed), and it is still open after
  any further \<^verbatim>\<open>route\<close> calls, the only calls the program makes after the one \<^verbatim>\<open>close()\<close>.
  On the \<^verbatim>\<open>singlePlayersRouter\<close>, a second \<^verbatim>\<open>close()\<close> closes the closed channel again, which
  is a panic.
\<close>

theorem route_after_close:
  assumes "multiPlayersRouter_close routes chs = Inr chs1"
    and "map_of routes k = None"
    and "multiPlayersRouter_route routes chs1 k = (c, routes', chs2)"
    and "route_all routes' chs2 qs = (routes'', chs3)"
    and "singlePlayersRouter_close c0 chs0 = Inr chs0'"
  shows "c = length chs1 \<and> map_of routes' k = Some c \<and> c \<notin> snd ` set routes
         \<and> chs2 ! c = make_chan
         \<and> list_all (\<lambda>c'. cclosed (chs2 ! c')) (map snd routes)
         \<and> c < length chs3 \<and> \<not> cclosed (chs3 ! c)
         \<and> singlePlayersRouter_close c0 chs0' = Inl PanicCloseOfClosedChannel"
proof -
  from assms(1) have cl: "close_all (map snd routes) chs = Inr chs1"
    by (simp add: multiPlayersRouter_close_def)
  have lt: "c' < length chs1 \<and> cclosed (chs1 ! c')" if "c' \<in> snd ` set routes" for c'
    using close_all_closed [OF cl, of c'] close_all_length [OF cl] that by simp
  from mroute_cases [OF assms(3)] assms(2)
  have r: "c = length chs1" "routes' = routes @ [(k, c)]" "chs2 = chs1 @ [make_chan]"
    by auto
  have 1: "map_of routes' k = Some c" using r assms(2) by (simp add: map_add_def)
  have 2: "c \<notin> snd ` set routes" using lt r by auto
  have 3: "chs2 ! c = make_chan" using r by simp
  have 4: "list_all (\<lambda>c'. cclosed (chs2 ! c')) (map snd routes)"
    using lt r by (auto simp: list_all_iff nth_append)
  from route_all_extends [OF assms(4)] obtain ext where e: "chs3 = chs2 @ ext" by blast
  have 5: "c < length chs3" "\<not> cclosed (chs3 ! c)"
    using e r by (simp_all add: nth_append make_chan_def)
  from assms(5) have 6: "singlePlayersRouter_close c0 chs0' = Inl PanicCloseOfClosedChannel"
    by (auto simp: singlePlayersRouter_close_def chan_close_def split: if_splits)
  show ?thesis using r 1 2 3 4 5 6 by simp
qed

theorem route_after_close_witness:
  "multiPlayersRouter_close [(''wind'', 0)] [make_chan] = Inr [\<lparr>cbuf = [], cclosed = True\<rparr>]
   \<and> multiPlayersRouter_route [(''wind'', 0)] [\<lparr>cbuf = [], cclosed = True\<rparr>] ''rain''
       = (1, [(''wind'', 0), (''rain'', 1)], [\<lparr>cbuf = [], cclosed = True\<rparr>, make_chan])
   \<and> \<not> cclosed (snd (route_all [(''wind'', 0), (''rain'', 1)]
          [\<lparr>cbuf = [], cclosed = True\<rparr>, make_chan] [''wind'', ''fire'', ''rain'']) ! 1)
   \<and> singlePlayersRouter_close 0 [make_chan] = Inr [\<lparr>cbuf = [], cclosed = True\<rparr>]
   \<and> singlePlayersRouter_close 0 [\<lparr>cbuf = [], cclosed = True\<rparr>] = Inl PanicCloseOfClosedChannel"
proof -
  let ?closed = "\<lparr>cbuf = [], cclosed = True\<rparr>"
  have a: "multiPlayersRouter_close [(''wind'', 0)] [make_chan] = Inr [?closed]"
    by (simp add: multiPlayersRouter_close_def chan_close_def make_chan_def)
  have b: "map_of [(''wind'', 0::nat)] ''rain'' = None" by simp
  have c: "multiPlayersRouter_route [(''wind'', 0)] [?closed] ''rain''
      = (1, [(''wind'', 0), (''rain'', 1)], [?closed, make_chan])"
    by (simp add: multiPlayersRouter_route_def)
  have d: "route_all [(''wind'', 0), (''rain'', 1)] [?closed, make_chan] [''wind'', ''fire'', ''rain'']
      = ([(''wind'', 0), (''rain'', 1), (''fire'', 2)], [?closed, make_chan, make_chan])"
    by (simp add: multiPlayersRouter_route_def)
  have e: "singlePlayersRouter_close 0 [make_chan] = Inr [?closed]"
    by (simp add: singlePlayersRouter_close_def chan_close_def make_chan_def)
  from route_after_close [OF a b c d e] a c d e show ?thesis by simp
qed


lemma single_step:
  assumes "exec cf l c = Some c'" and "router c = SinglePlayersRouter 0" and "length (chans c) = 1"
  shows "router c' = SinglePlayersRouter 0 \<and> length (chans c') = 1"
  using assms(1)
  by (cases rule: exec_cases)
    (use assms(2,3) in \<open>auto simp: singlePlayersRouter_route_def singlePlayersRouter_close_def
       dest!: chan_close_Inr\<close>)

text \<open>
  Claim C8. Without \<^verbatim>\<open>--mix\<close> (the sequential and the interleave mode) the router is the
  \<^verbatim>\<open>singlePlayersRouter\<close>: in every configuration of every run there is exactly one channel,
  and \<^verbatim>\<open>route\<close> returns it for any two queries and changes nothing; \<^verbatim>\<open>route\<close> ignores its
  argument.
\<close>

theorem single_router_one_stream:
  assumes "run cf (init cf w) ls = Some c" and "\<not> onlyQuery cf" and "\<not> mix cf"
  shows "router c = SinglePlayersRouter 0 \<and> length (chans c) = 1
         \<and> route (router c) (chans c) q1 = Inr (0, router c, chans c)
         \<and> route (router c) (chans c) q2 = Inr (0, router c, chans c)
         \<and> singlePlayersRouter_route ch q1 = singlePlayersRouter_route ch q2"
proof -
  have "router c = SinglePlayersRouter 0 \<and> length (chans c) = 1"
    using assms(1)
  proof (rule run_invariant)
    show "router (init cf w) = SinglePlayersRouter 0 \<and> length (chans (init cf w)) = 1"
      using assms(2,3) by (simp add: init_pipeline make_chan_def)
  next
    fix c l c'
    assume "router c = SinglePlayersRouter 0 \<and> length (chans c) = 1" "exec cf l c = Some c'"
    then show "router c' = SinglePlayersRouter 0 \<and> length (chans c') = 1"
      using single_step by blast
  qed
  then show ?thesis by (simp add: singlePlayersRouter_route_def)
qed

theorem single_router_one_stream_witness:
  "map_option (\<lambda>c. (route (router c) (chans c) ''cafe'', route (router c) (chans c) ''rain'',
        length (chans c)))
     (run ex_conf (init ex_conf ex_world) ex_schedule)
   = Some (Inr (0, SinglePlayersRouter 0, [\<lparr>cbuf = [], cclosed = False\<rparr>]),
           Inr (0, SinglePlayersRouter 0, [\<lparr>cbuf = [], cclosed = False\<rparr>]), 1)"
proof -
  obtain c where c: "run ex_conf (init ex_conf ex_world) ex_schedule = Some c"
    "chans c = [\<lparr>cbuf = [], cclosed = False\<rparr>]"
    by (rule ex_run_Some)
  from single_router_one_stream [OF c(1), of "''cafe''" "''rain''"] c show ?thesis
    by (simp add: singlePlayersRouter_route_def)
qed


section \<open>The retrieval stage\<close>

text \<open>
  What holds of the retrieval stage in every configuration of every run. The items the
  downloader has taken from the intake are, in order, the items it has decided on followed
  by the item it is working on, if any; a decision is a send on a channel or a drop with
  its log line, one event for one item, so the items taken are as many as the items sent
  plus the items dropped (plus the one in hand); an item is fetched at most once; what a
  channel has ever been sent (hence all it holds and all its player has taken) is what the
  downloader queued on it. An item sent, or about to be sent, had a retrieval that
  succeeded: its file is in the cache. An item dropped had a retrieval that failed, and
  the error logged is the error of the cache check or of the fetch.
\<close>

lemma retrieval_outcome:
  assumes "run cf (init cf w) ls = Some c"
  shows "intakes (trace c) = outcomes (trace c) @ inflight (dl c)
         \<and> length (intakes (trace c))
             = length (queued (trace c)) + length (dropped (trace c)) + length (inflight (dl c))
         \<and> length (fetches (trace c)) \<le> length (intakes (trace c))
         \<and> (\<forall>cid. concat (map (queued_on cid) (trace c))
               = concat (map (played_on cid) (trace c))
                 @ (if cid < length (chans c) then cbuf (chans c ! cid) else []))
         \<and> (\<forall>s. s \<in> set (queued (trace c)) \<or> dl c = DSending s \<longrightarrow>
               files (world c) (soundPath cf (fname s)) \<noteq> None
               \<and> stat_ok w (soundPath cf (fname s)))
         \<and> (\<forall>s e. (s, e) \<in> set (drops (trace c)) \<longrightarrow> failed cf w s e)
         \<and> map fst (drops (trace c)) = dropped (trace c)"
proof -
  have 1: "intakes (trace c) = outcomes (trace c) @ inflight (dl c)"
    using assms
  proof (rule run_invariant)
    show "intakes (trace (init cf w)) = outcomes (trace (init cf w)) @ inflight (dl (init cf w))"
      by (cases "onlyQuery cf") (simp_all add: proj_defs init_pipeline init_preview)
  qed (rule intake_step)
  have 2: "length (fetches (trace c)) + length (inflight (dl c)) \<le> length (intakes (trace c))
           + (case dl c of DSending s \<Rightarrow> 1 | _ \<Rightarrow> 0)"
    using assms
  proof (rule run_invariant)
    show "length (fetches (trace (init cf w))) + length (inflight (dl (init cf w)))
        \<le> length (intakes (trace (init cf w)))
           + (case dl (init cf w) of DSending s \<Rightarrow> 1 | _ \<Rightarrow> 0)"
      by (cases "onlyQuery cf") (simp_all add: proj_defs init_pipeline init_preview)
  qed (rule fetch_step)
  have 3: "fifo c"
    using assms by (rule run_invariant) (rule fifo_init, rule fifo_step)
  from 1 have "length (intakes (trace c)) = length (outcomes (trace c)) + length (inflight (dl c))"
    by simp
  moreover from 2 have "length (fetches (trace c)) \<le> length (intakes (trace c))"
    by (cases "dl c") simp_all
  ultimately have 4: "intakes (trace c) = outcomes (trace c) @ inflight (dl c)
      \<and> length (intakes (trace c))
          = length (queued (trace c)) + length (dropped (trace c)) + length (inflight (dl c))
      \<and> length (fetches (trace c)) \<le> length (intakes (trace c))
      \<and> (\<forall>cid. concat (map (queued_on cid) (trace c))
            = concat (map (played_on cid) (trace c))
              @ (if cid < length (chans c) then cbuf (chans c ! cid) else []))"
    using 1 3 by (simp add: outcomes_length fifo_def)
  from retrieved_run [OF assms]
  have 5: "(\<forall>s. s \<in> set (queued (trace c)) \<or> dl c = DSending s \<longrightarrow>
               files (world c) (soundPath cf (fname s)) \<noteq> None
               \<and> stat_ok w (soundPath cf (fname s)))
         \<and> (\<forall>s e. (s, e) \<in> set (drops (trace c)) \<longrightarrow> failed cf w s e)"
    unfolding retrieved_def by blast
  from 4 5 drops_dropped [of "trace c"] show ?thesis by (intro conjI) blast+
qed

text \<open>
  Claim C3 fails on the code. \<^verbatim>\<open>thames --mix -d -n 31 cafe\<close>, where 31 sounds or more match
  \<^verbatim>\<open>cafe\<close>: with \<^verbatim>\<open>-d\<close> the one mock player reads the channel of the key \<^verbatim>\<open>""\<close>, and no
  goroutine reads the channel of \<^verbatim>\<open>cafe\<close>, which holds \<^verbatim>\<open>PlayerChannelSize = 30\<close> items. The
  downloader takes the 31st item from the intake, the retrieval succeeds (the file is in the
  cache), and the send \<^verbatim>\<open>router.route(snd.query) <- snd\<close> blocks for ever: the item is
  neither handed on nor dropped. No step is enabled any more (the Go runtime ends such a
  process with a deadlock error), with 31 items taken, 30 sent and none dropped.
\<close>

theorem resolved_item_neither_sent_nor_dropped:
  "run ex_many (init ex_many ex_world_many) ex_many_schedule = Some ex_full
   \<and> dl ex_full = DSending (ex_item 30)
   \<and> downloader_item ex_many (world ex_full) (ex_item 30)
       = (world ex_full, [EvCached (ex_item 30)], None)
   \<and> length (intakes (trace ex_full)) = 31 \<and> length (queued (trace ex_full)) = 30
   \<and> dropped (trace ex_full) = [] \<and> halted ex_full = None
   \<and> (\<forall>l. exec ex_many l ex_full = None)"
proof -
  have f: "world ex_full = ex_world_many" "dl ex_full = DSending (ex_item 30)"
    "halted ex_full = None"
    and t: "trace ex_full = EvQuery ''cafe'' # concat (map ex_log [0..<30])
       @ [EvIntake (ex_item 30), EvCached (ex_item 30)]"
    by (simp_all add: ex_full_def ex_fill_def del: upt_Suc)
  have p: "intakes (e # tr @ [e1, e2]) = intake_of e @ intakes tr @ intake_of e1 @ intake_of e2"
    "queued (e # tr @ [e1, e2]) = queued_of e @ queued tr @ queued_of e1 @ queued_of e2"
    "dropped (e # tr @ [e1, e2]) = dropped_of e @ dropped tr @ dropped_of e1 @ dropped_of e2"
    for e tr e1 e2
    by (simp_all add: proj_defs)
  have c: "length (intakes (trace ex_full)) = 31" "length (queued (trace ex_full)) = 30"
    "dropped (trace ex_full) = []"
    unfolding t p ex_log_counts by simp_all
  from f c ex_many_run ex_full_blocked ex_item_cached [of 30] show ?thesis by simp
qed

theorem resolved_item_neither_sent_nor_dropped_witness:
  "exec ex_many LSend ex_full = None \<and> exec ex_many LResolve ex_full = None
   \<and> exec ex_many (LPlayerRecv 0) ex_full = None \<and> exec ex_many LDlClose ex_full = None
   \<and> exec ex_many LMainExit ex_full = None"
  using resolved_item_neither_sent_nor_dropped by blast

section \<open>Items are never modified\<close>

text \<open>
  Claim C7. In every run, every item taken from the intake, held by the downloader, queued
  on a channel, held by a channel or taken from it by a player is, field for field, one of
  the items the catalog query sources created. No component changes a field of an item, the
  downloader included: \<^verbatim>\<open>queryDatabase\<close> already sets \<^verbatim>\<open>fpath\<close> to \<^verbatim>\<open>soundPath(fname)\<close> and
  \<^verbatim>\<open>query\<close> to its argument when it creates the item, and the downloader forwards the item
  as it received it.
\<close>

theorem items_never_modified:
  assumes "run cf (init cf w) ls = Some c"
  shows "set (intakes (trace c)) \<subseteq> set (created cf)
         \<and> set (queued (trace c)) \<subseteq> set (created cf)
         \<and> (\<forall>cid. set (concat (map (played_on cid) (trace c))) \<subseteq> set (created cf))
         \<and> (\<forall>cid < length (chans c). set (cbuf (chans c ! cid)) \<subseteq> set (created cf))
         \<and> set (inflight (dl c)) \<subseteq> set (created cf)
         \<and> (\<forall>s \<in> set (created cf).
               fpath s = soundPath cf (fname s) \<and> query s \<in> set (args cf))"
proof -
  have a: "all_created cf c" using assms by (rule all_created_run)
  then have e: "set (concat (map event_sounds (trace c))) \<subseteq> set (created cf)"
    by (simp add: all_created_def)
  have 1: "set (intakes (trace c)) \<subseteq> set (created cf)"
    unfolding intakes_def using concat_map_sub [of intake_of event_sounds] intake_sub e
    by blast
  have 2: "set (queued (trace c)) \<subseteq> set (created cf)"
    unfolding queued_def using concat_map_sub [of queued_of event_sounds] queued_sub e
    by blast
  have 3: "set (concat (map (played_on cid) (trace c))) \<subseteq> set (created cf)" for cid
    using concat_map_sub [of "played_on cid" event_sounds] played_sub e
    by blast
  from a have 4: "\<forall>cid < length (chans c). set (cbuf (chans c ! cid)) \<subseteq> set (created cf)"
    and 5: "set (inflight (dl c)) \<subseteq> set (created cf)"
    by (simp_all add: all_created_def)
  have 6: "\<forall>s \<in> set (created cf). fpath s = soundPath cf (fname s) \<and> query s \<in> set (args cf)"
    using created_fields by blast
  from 1 2 3 4 5 6 show ?thesis by blast
qed

theorem items_never_modified_witness:
  "created ex_conf = [ex_cafe, ex_rain]
   \<and> map_option (\<lambda>c. (intakes (trace c), queued (trace c),
          concat (map (played_on 0) (trace c)), set (intakes (trace c)) \<subseteq> set (created ex_conf)))
        (run ex_conf (init ex_conf ex_world) ex_schedule)
     = Some ([ex_cafe], [ex_cafe], [ex_cafe], True)"
proof -
  obtain c where c: "run ex_conf (init ex_conf ex_world) ex_schedule = Some c"
    "trace c = [EvQuery ''cafe'', EvIntake ex_cafe, EvCached ex_cafe, EvQueued 0 ex_cafe,
            EvPlaying 0 ex_cafe, EvQuery ''rain'']"
    by (rule ex_run_Some)
  from items_never_modified [OF c(1)] have "set (intakes (trace c)) \<subseteq> set (created ex_conf)"
    by simp
  with c ex_created show ?thesis by (simp add: proj_defs)
qed


section \<open>The mix mode\<close>

text \<open>
  What holds with \<^verbatim>\<open>--mix\<close> in every configuration of every run, under any interleaving of
  the \<^verbatim>\<open>route\<close> calls of the downloader and of the players: the keys of the router's map
  are distinct and are exactly the keys it has been asked for, and the channels made are
  exactly the channels of these keys, one each, so two first references to one key never
  make two channels; every item ever sent on the channel of key \<open>k\<close>, hence every item the
  channel holds, has query \<open>k\<close>. Without \<^verbatim>\<open>-d\<close> the keys are search terms, and once every
  player has made its call they are all the search terms: the number of channels is the
  number of distinct search terms. With \<^verbatim>\<open>-d\<close> the keys are search terms and the key \<^verbatim>\<open>""\<close>
  that the one mock player asks for.
\<close>

lemma mix_one_stream_per_key:
  assumes "run cf (init cf w) ls = Some c" and "mix cf" and "\<not> onlyQuery cf"
  shows "\<exists>routes. router c = MultiPlayersRouter routes
           \<and> distinct (map fst routes) \<and> map snd routes = [0..<length (chans c)]
           \<and> set (map fst routes) = set (asked c)
           \<and> length (chans c) = card (set (asked c))
           \<and> set (asked c) \<subseteq> set (args cf) \<union> (if onlyDownload cf then {[]} else {})
           \<and> (\<not> onlyDownload cf \<and> list_all (\<lambda>p. pchan p \<noteq> None) (players c)
                \<longrightarrow> set (map fst routes) = set (args cf)
                    \<and> length (chans c) = card (set (args cf)))
           \<and> (onlyDownload cf \<and> list_all (\<lambda>p. pchan p \<noteq> None) (players c)
                \<longrightarrow> [] \<in> set (map fst routes))
           \<and> (\<forall>k cid s. map_of routes k = Some cid
                  \<and> s \<in> set (concat (map (queued_on cid) (trace c))) \<longrightarrow> query s = k)
           \<and> (\<forall>k cid. map_of routes k = Some cid
                  \<longrightarrow> cid < length (chans c)
                      \<and> list_all (\<lambda>s. query s = k) (cbuf (chans c ! cid)))"
proof -
  from mix_inv_run [OF assms] obtain routes where r: "router c = MultiPlayersRouter routes"
    "distinct (map fst routes)" "map snd routes = [0..<length (chans c)]"
    "set (map fst routes) = set (asked c)" "map pkey (players c) = map pkey (launch_players cf)"
    "\<forall>cid s. EvQueued cid s \<in> set (trace c) \<longrightarrow> map_of routes (query s) = Some cid"
    unfolding mix_inv_def by blast
  have f: "fifo c"
    using assms(1) by (rule run_invariant) (rule fifo_init, rule fifo_step)
  note q = queued_created [OF all_created_run [OF assms(1)]]
  have pk: "map pkey (players c) = (if onlyDownload cf then [[]] else args cf)"
    using r(5) assms(2) by (simp add: launch_players_def new_player_def comp_def)
  have d: "distinct (map snd routes)" using r(3) by simp
  have len: "length routes = length (chans c)"
    using r(3) by (metis length_map length_upt minus_nat.diff_0)
  have "card (set (map fst routes)) = length routes"
    using r(2) by (metis distinct_card length_map)
  with r(4) len have 0: "length (chans c) = card (set (asked c))" by simp
  have 1: "set (asked c) \<subseteq> set (args cf) \<union> (if onlyDownload cf then {[]} else {})"
  proof -
    have "set (map pkey (filter (\<lambda>p. pchan p \<noteq> None) (players c)))
        \<subseteq> set (args cf) \<union> (if onlyDownload cf then {[]} else {})"
      using routed_keys [of "players c"] pk by (auto split: if_splits)
    with q show ?thesis by (auto simp: asked_def)
  qed
  have 2: "set (map fst routes) = set (args cf) \<and> length (chans c) = card (set (args cf))"
    if a: "\<not> onlyDownload cf \<and> list_all (\<lambda>p. pchan p \<noteq> None) (players c)"
  proof -
    from a pk all_routed_keys [of "players c"]
    have "map pkey (filter (\<lambda>p. pchan p \<noteq> None) (players c)) = args cf" by simp
    with q have "set (asked c) = set (args cf)" by (auto simp: asked_def)
    with r(4) 0 show ?thesis by simp
  qed
  have 3: "[] \<in> set (map fst routes)"
    if a: "onlyDownload cf \<and> list_all (\<lambda>p. pchan p \<noteq> None) (players c)"
  proof -
    from a pk all_routed_keys [of "players c"]
    have "map pkey (filter (\<lambda>p. pchan p \<noteq> None) (players c)) = [[]]" by simp
    then have "[] \<in> set (asked c)" by (simp add: asked_def)
    with r(4) show ?thesis by simp
  qed
  have 4: "query s = k"
    if "map_of routes k = Some cid \<and> s \<in> set (concat (map (queued_on cid) (trace c)))"
    for k cid s
  proof -
    from that have "EvQueued cid s \<in> set (trace c)" using queued_on_iff by blast
    with r(6) have "map_of routes (query s) = Some cid" by blast
    with that d show ?thesis using map_of_inj by metis
  qed
  have 5: "cid < length (chans c) \<and> list_all (\<lambda>s. query s = k) (cbuf (chans c ! cid))"
    if m: "map_of routes k = Some cid" for k cid
  proof -
    from m have "cid \<in> set (map snd routes)"
      by (auto dest!: map_of_SomeD intro: rev_image_eqI)
    with r(3) have lt: "cid < length (chans c)" by simp
    from f lt have "set (cbuf (chans c ! cid)) \<subseteq> set (concat (map (queued_on cid) (trace c)))"
      by (simp add: fifo_def)
    then have "query s = k" if "s \<in> set (cbuf (chans c ! cid))" for s
      using that 4 [of k cid s] m by blast
    with lt show ?thesis by (simp add: list_all_iff)
  qed
  from r(1-4) 0 1 2 3 4 5 show ?thesis by blast
qed

text \<open>
  For instance, in the mix mode with a term given twice, two players ask for the same key
  and get the same channel.
\<close>

lemma ex_mix_one_stream_per_key:
  "map_option (\<lambda>c. (router c, length (chans c), map pchan (players c),
        concat (map (queued_on 1) (trace c)), length (chans c) = card (set (args ex_mix))))
     (run ex_mix (init ex_mix ex_world) ex_mix_schedule)
   = Some (MultiPlayersRouter [(''cafe'', 0), (''rain'', 1)], 2, [Some 0, Some 1, Some 0],
           [ex_rain], True)"
proof -
  from ex_mix_run obtain c where c: "run ex_mix (init ex_mix ex_world) ex_mix_schedule = Some c"
    "router c = MultiPlayersRouter [(''cafe'', 0), (''rain'', 1)]"
    "chans c = [\<lparr>cbuf = [], cclosed = False\<rparr>, \<lparr>cbuf = [ex_rain], cclosed = False\<rparr>]"
    "map pchan (players c) = [Some 0, Some 1, Some 0]"
    "trace c = [EvQuery ''rain'', EvIntake ex_rain, EvFetch ex_rain, EvQueued 1 ex_rain]"
    "list_all (\<lambda>p. pchan p \<noteq> None) (players c)"
    by (cases "run ex_mix (init ex_mix ex_world) ex_mix_schedule") auto
  with mix_one_stream_per_key [OF c(1)]
  have "length (chans c) = card (set (args ex_mix))" by auto
  with c show ?thesis by simp
qed

text \<open>
  Claim C1 fails on the code. \<^verbatim>\<open>thames --mix -d cafe rain\<close>: the router is the per-term one,
  but \<^verbatim>\<open>main\<close> tests \<^verbatim>\<open>-d\<close> before \<^verbatim>\<open>--mix\<close> when it launches the players, so instead of
  one player for each term there is the one mock player, which asks the router for the
  key \<^verbatim>\<open>""\<close>, while the downloader asks it for \<^verbatim>\<open>cafe\<close> and \<^verbatim>\<open>rain\<close>: three channels for two
  search terms, one of them for a key that is no search term, and the two channels of the
  terms have no reader.
\<close>

theorem mix_download_extra_stream:
  "map_option (\<lambda>c. (router c, length (chans c), map pchan (players c), map cbuf (chans c)))
     (run ex_mix_d (init ex_mix_d ex_world) ex_mix_d_schedule)
   = Some (MultiPlayersRouter [([], 0), (''cafe'', 1), (''rain'', 2)], 3, [Some 0],
           [[], [ex_cafe], [ex_rain]])
   \<and> card (set (args ex_mix_d)) = 2"
  by (simp add: ex_mix_d_schedule_def eval_defs ex_db_def ex_join_def ex_world_def ex_http_def
      assetUrl_def AssetsRoot_def ex_cafe_def ex_rain_def)

section \<open>Closing the streams\<close>

lemma ex_mix_none_simps [simp]:
  "soundsDir ex_mix_none = ''/c/sounds''" "pathJoin ex_mix_none = ex_join"
  "nsounds ex_mix_none = 30" "onlyQuery ex_mix_none = False" "onlyDownload ex_mix_none = False"
  "shuffle ex_mix_none = False" "mix ex_mix_none = True" "args ex_mix_none = [''zzz'']"
  "db ex_mix_none = ex_db"
  by (simp_all add: ex_mix_none_def ex_conf_def)

lemma ex_late_run: "run ex_mix_none (init ex_mix_none ex_world) ex_late_schedule = Some ex_stuck"
  by (simp add: ex_late_schedule_def ex_stuck_def eval_defs ex_db_def)

lemma ex_stuck_blocked: "exec ex_mix_none l ex_stuck = None"
  by (cases l) (auto simp: ex_stuck_def eval_defs less_Suc_eq_0_disj split: option.splits list.splits)

text \<open>
  Claim C2 fails on the code. \<^verbatim>\<open>thames --mix zzz\<close>, where no sound matches \<^verbatim>\<open>zzz\<close>: nothing
  orders the player's call \<^verbatim>\<open>router.route("zzz")\<close> before the downloader's deferred
  \<^verbatim>\<open>router.close()\<close>. In the run where the inquirer closes the intake and the downloader
  closes the router (whose map is still empty) first, the player's call then makes a
  channel that nothing closes: the downloader has returned, the channel is open and empty,
  the player waits on it for ever, \<^verbatim>\<open>wg.Wait()\<close> never returns, and no step is enabled (the
  Go runtime ends such a process with a deadlock error).
  What else the claim says holds in every run (\<open>router_closed_once\<close>): the router is closed
  at most once, only after the intake has been closed, and no channel is closed twice.
\<close>

theorem late_route_leaves_open_stream:
  "run ex_mix_none (init ex_mix_none ex_world) ex_late_schedule = Some ex_stuck
   \<and> trace ex_stuck = [EvQuery ''zzz'', EvRouterClose]
   \<and> router ex_stuck = MultiPlayersRouter [(''zzz'', 0)]
   \<and> chans ex_stuck = [\<lparr>cbuf = [], cclosed = False\<rparr>]
   \<and> dl ex_stuck = DDone \<and> halted ex_stuck = None
   \<and> (\<forall>l. exec ex_mix_none l ex_stuck = None)"
  using ex_late_run ex_stuck_blocked by (simp add: ex_stuck_def)

theorem late_route_leaves_open_stream_witness:
  "exec ex_mix_none (LPlayerEnd 0) ex_stuck = None \<and> exec ex_mix_none LMainExit ex_stuck = None
   \<and> exec ex_mix_none LDlClose ex_stuck = None"
  using late_route_leaves_open_stream by blast


section \<open>The sequential mode\<close>

text \<open>
  Claim C5, as the code has it. In the sequential mode, for a term \<open>T1\<close> given once and a
  term \<open>T2\<close> given after it and not before it. When an item of \<open>T2\<close> enters the intake,
  every item that entered before has been decided on (sent on the channel, or dropped on
  a failure), and among these are all the items of the query of \<open>T1\<close>: every item of \<open>T1\<close>
  is resolved before any item of \<open>T2\<close> enters the intake. When a query of \<open>T2\<close> begins, the
  downloader has taken all the items of the query of \<open>T1\<close>, and has decided on every item
  it has taken but at most the last one.
\<close>

theorem sequential_terms_in_order:
  assumes "run cf (init cf w) ls = Some c"
    and "\<not> onlyQuery cf" and "\<not> shuffle cf" and "\<not> mix cf"
    and "args cf = as1 @ T1 # as2" and "T1 \<notin> set as1" and "T1 \<notin> set as2"
    and "T2 \<in> set as2" and "T2 \<notin> set as1"
  shows "(\<forall>pre s2 post. trace c = pre @ EvIntake s2 # post \<and> query s2 = T2 \<longrightarrow>
            intakes pre = outcomes pre
            \<and> filter (\<lambda>s. query s = T1) (outcomes pre)
                = sounds_of (queryDatabase cf T1 DownloadCh))
         \<and> (\<forall>pre post. trace c = pre @ EvQuery T2 # post \<longrightarrow>
            filter (\<lambda>s. query s = T1) (intakes pre) = sounds_of (queryDatabase cf T1 DownloadCh)
            \<and> prefix (outcomes pre) (intakes pre)
            \<and> length (intakes pre) \<le> Suc (length (outcomes pre)))"
proof -
  let ?S = "\<lambda>q. queryDatabase cf q DownloadCh"
  let ?script = "concat (map ?S (args cf))"
  have "script_inv ?script c"
    using assms(1)
  proof (rule run_invariant)
    show "script_inv ?script (init cf w)"
      using assms(2-4) by (simp add: script_inv_def init_pipeline inquirers_def acts_def)
  qed (rule script_inv_step)
  then have s: "acts (trace c) @ (producers c ! 0) = ?script" by (simp add: script_inv_def)
  have "intake_gate (trace c) \<and> always_settled (trace c)
      \<and> intakes (trace c) = outcomes (trace c) @ inflight (dl c)"
    using assms(1)
  proof (rule run_invariant)
    show "intake_gate (trace (init cf w)) \<and> always_settled (trace (init cf w))
        \<and> intakes (trace (init cf w)) = outcomes (trace (init cf w)) @ inflight (dl (init cf w))"
      using assms(2)
      by (simp add: intake_gate_def always_settled_def settled_def init_pipeline proj_defs)
  next
    fix c l c'
    assume "intake_gate (trace c) \<and> always_settled (trace c)
        \<and> intakes (trace c) = outcomes (trace c) @ inflight (dl c)"
      and "exec cf l c = Some c'"
    then show "intake_gate (trace c') \<and> always_settled (trace c')
        \<and> intakes (trace c') = outcomes (trace c') @ inflight (dl c')"
      using intake_gate_step always_settled_step intake_step by blast
  qed
  then have g: "intake_gate (trace c)" and a: "always_settled (trace c)" by simp_all
  from assms(7,8) have ne: "T2 \<noteq> T1" by blast
  have n1: "AQuery T2 \<notin> set (concat (map ?S as1))" "AQuery T2 \<notin> set (?S T1)"
    using assms(9) ne by (auto dest: queryDatabase_tags)
  have n2: "ASend DownloadCh s2 \<notin> set (concat (map ?S as1))" "ASend DownloadCh s2 \<notin> set (?S T1)"
    if "query s2 = T2" for s2
    using assms(9) ne that by (auto dest: queryDatabase_tags)
  have 1: "intakes pre = outcomes pre
      \<and> filter (\<lambda>s. query s = T1) (outcomes pre) = sounds_of (?S T1)"
    if t: "trace c = pre @ EvIntake s2 # post" and q: "query s2 = T2" for pre s2 post
  proof -
    from g t have i: "intakes pre = outcomes pre" by (auto simp: intake_gate_def)
    from s t assms(5)
    have "concat (map ?S (as1 @ T1 # as2))
        = acts pre @ ASend DownloadCh s2 # (acts post @ (producers c ! 0))"
      by (simp add: acts_def)
    from block_taken [OF this assms(6,7) n2 [OF q]] i show ?thesis
      by (simp add: dsound_acts)
  qed
  have 2: "filter (\<lambda>s. query s = T1) (intakes pre) = sounds_of (?S T1)
      \<and> prefix (outcomes pre) (intakes pre)
      \<and> length (intakes pre) \<le> Suc (length (outcomes pre))"
    if t: "trace c = pre @ EvQuery T2 # post" for pre post
  proof -
    from t have "prefix pre (trace c)" by simp
    with a have "settled pre" by (simp add: always_settled_def list_all_iff)
    moreover from s t assms(5)
    have "concat (map ?S (as1 @ T1 # as2))
        = acts pre @ AQuery T2 # (acts post @ (producers c ! 0))"
      by (simp add: acts_def)
    from block_taken [OF this assms(6,7) n1]
    have "filter (\<lambda>s. query s = T1) (intakes pre) = sounds_of (?S T1)"
      by (simp add: dsound_acts)
    ultimately show ?thesis by (simp add: settled_def)
  qed
  from 1 2 show ?thesis by blast
qed

text \<open>
  Claim C5 as stated fails. The query of the second term begins as soon as the downloader
  has received the last item of the first: here \<^verbatim>\<open>rain\<close> is queried while the one item of
  \<^verbatim>\<open>cafe\<close> is in the downloader's hands, with no cache check done, nothing queued and
  nothing played. And with a term given twice, an item tagged \<^verbatim>\<open>cafe\<close> enters the intake
  after an item tagged \<^verbatim>\<open>rain\<close>.
\<close>

theorem next_query_starts_before_item_resolved:
  "map_option (\<lambda>c. (trace c, dl c, cbuf (chans c ! 0)))
     (run ex_conf (init ex_conf ex_world) [LProd 0, LProd 0, LProd 0])
   = Some ([EvQuery ''cafe'', EvIntake ex_cafe, EvQuery ''rain''], DHolding ex_cafe, [])
   \<and> map_option trace (run ex_repeat (init ex_repeat ex_world) ex_repeat_schedule)
     = Some [EvQuery ''cafe'', EvIntake ex_cafe, EvCached ex_cafe, EvQueued 0 ex_cafe,
             EvQuery ''rain'', EvIntake ex_rain, EvFetch ex_rain, EvQueued 0 ex_rain,
             EvQuery ''cafe'', EvIntake ex_cafe]"
  by (simp add: ex_repeat_schedule_def eval_defs ex_db_def ex_join_def ex_world_def ex_http_def
      assetUrl_def AssetsRoot_def ex_cafe_def ex_rain_def)

theorem sequential_terms_in_order_witness:
  "map_option trace (run ex_conf (init ex_conf ex_world) ex_schedule_next)
     = Some ([EvQuery ''cafe'', EvIntake ex_cafe, EvCached ex_cafe, EvQueued 0 ex_cafe,
              EvPlaying 0 ex_cafe, EvQuery ''rain''] @ EvIntake ex_rain # [])
   \<and> filter (\<lambda>s. query s = ''cafe'')
         (outcomes [EvQuery ''cafe'', EvIntake ex_cafe, EvCached ex_cafe, EvQueued 0 ex_cafe,
            EvPlaying 0 ex_cafe, EvQuery ''rain''])
     = sounds_of (queryDatabase ex_conf ''cafe'' DownloadCh)
   \<and> map_option trace (run ex_conf (init ex_conf ex_world) [LProd 0, LProd 0, LProd 0])
     = Some ([EvQuery ''cafe'', EvIntake ex_cafe] @ EvQuery ''rain'' # [])
   \<and> filter (\<lambda>s. query s = ''cafe'') (intakes [EvQuery ''cafe'', EvIntake ex_cafe])
     = sounds_of (queryDatabase ex_conf ''cafe'' DownloadCh)
   \<and> length (intakes [EvQuery ''cafe'', EvIntake ex_cafe])
     \<le> Suc (length (outcomes [EvQuery ''cafe'', EvIntake ex_cafe]))
   \<and> sounds_of (queryDatabase ex_conf ''cafe'' DownloadCh) = [ex_cafe]"
proof -
  let ?pre = "[EvQuery ''cafe'', EvIntake ex_cafe, EvCached ex_cafe, EvQueued 0 ex_cafe,
            EvPlaying 0 ex_cafe, EvQuery ''rain'']"
  let ?pre2 = "[EvQuery ''cafe'', EvIntake ex_cafe]"
  from ex_run_next obtain c where c: "run ex_conf (init ex_conf ex_world) ex_schedule_next = Some c"
    "trace c = ?pre @ EvIntake ex_rain # []"
    by (cases "run ex_conf (init ex_conf ex_world) ex_schedule_next") auto
  from ex_run_early obtain d where
    d: "run ex_conf (init ex_conf ex_world) [LProd 0, LProd 0, LProd 0] = Some d"
    "trace d = ?pre2 @ EvQuery ''rain'' # []"
    by (cases "run ex_conf (init ex_conf ex_world) [LProd 0, LProd 0, LProd 0]") auto
  have a: "args ex_conf = [] @ ''cafe'' # [''rain'']" "''cafe'' \<notin> set []"
    "''cafe'' \<notin> set [''rain'']" "''rain'' \<in> set [''rain'']" "''rain'' \<notin> set []"
    "\<not> onlyQuery ex_conf" "\<not> shuffle ex_conf" "\<not> mix ex_conf" "query ex_rain = ''rain''"
    by (simp_all add: ex_rain_def)
  from sequential_terms_in_order [OF c(1) a(6,7,8,1,2,3,4,5)] c(2) a(9)
  have 1: "filter (\<lambda>s. query s = ''cafe'') (outcomes ?pre)
      = sounds_of (queryDatabase ex_conf ''cafe'' DownloadCh)"
    by blast
  from sequential_terms_in_order [OF d(1) a(6,7,8,1,2,3,4,5)] d(2)
  have 2: "filter (\<lambda>s. query s = ''cafe'') (intakes ?pre2)
      = sounds_of (queryDatabase ex_conf ''cafe'' DownloadCh)
    \<and> length (intakes ?pre2) \<le> Suc (length (outcomes ?pre2))"
    by blast
  have 3: "sounds_of (queryDatabase ex_conf ''cafe'' DownloadCh) = [ex_cafe]"
    by (simp add: queryDatabase_def ex_db_def soundPath_def ex_join_def ex_cafe_def)
  from 1 2 3 ex_run_next ex_run_early show ?thesis by simp
qed

section \<open>The preview mode\<close>

text \<open>
  What holds of the preview mode (\<^verbatim>\<open>--query\<close>) in every configuration of every run: the
  downloader is not started, there is no router, no channel and no player, no event of
  retrieval, routing or playing has happened and the cache is untouched; every line
  printed is, for an item a query source created, its description, a space, and the local
  path when \<^verbatim>\<open>os.Stat\<close> of it succeeds, else the URL of the asset; the items received are
  the lines printed and the items the printing goroutines still hold; and when the
  process has exited with code 0, the printing goroutines have received every item of
  every source, in order, and nothing is left of the script of \<^verbatim>\<open>main\<close> but the exit.
\<close>

lemma preview_frame:
  assumes "run cf (init cf w) ls = Some c" and "onlyQuery cf"
  shows "dl c = DNotStarted \<and> router c = NilRouter \<and> chans c = [] \<and> players c = []
         \<and> world c = w
         \<and> list_all (\<lambda>e. \<not> is_playback e) (trace c)
         \<and> list_all (\<lambda>l. \<exists>s \<in> set (created cf).
               l = descr s @ '' ''
                   @ (if os_Stat w (fpath s) = None then fpath s else assetUrl (fname s))
                   @ [CHR 0x0A])
             (printed (trace c))
         \<and> length (printed (trace c)) + unprinted c = length (received (trace c))
         \<and> (halted c = Some 0 \<longrightarrow> received (trace c) = created cf \<and> producers c = [[AExit]])"
proof -
  from preview_inv_run [OF assms] have p: "preview_inv cf w c"
    and s: "length (producers c) = 1" "acts (trace c) @ (producers c ! 0) = preview_script cf"
    by (simp_all add: script_inv_def)
  from p have 1: "dl c = DNotStarted" "router c = NilRouter" "chans c = []" "players c = []"
    "world c = w" and 2: "list_all (\<lambda>e. \<not> is_playback e) (trace c)"
    and 3: "list_all (\<lambda>l. \<exists>s \<in> set (created cf). l = preview_line w s) (printed (trace c))"
    and 4: "halted c = Some 0 \<longrightarrow> (\<exists>rest. producers c ! 0 = AExit # rest)"
    by (simp_all add: preview_inv_def)
  have 5: "list_all (\<lambda>l. \<exists>s \<in> set (created cf).
               l = descr s @ '' ''
                   @ (if os_Stat w (fpath s) = None then fpath s else assetUrl (fname s))
                   @ [CHR 0x0A])
             (printed (trace c))"
  proof -
    have "preview_line w s = descr s @ '' ''
        @ (if os_Stat w (fpath s) = None then fpath s else assetUrl (fname s)) @ [CHR 0x0A]" for s
      by (simp add: preview_line_def)
    with 3 show ?thesis by (simp only:)
  qed
  have 6: "length (printed (trace c)) + unprinted c = length (received (trace c))"
    using assms(1) by (rule unprinted_run)
  have 7: "received (trace c) = created cf \<and> producers c = [[AExit]]" if h: "halted c = Some 0"
  proof -
    from 4 h obtain rest where r: "producers c ! 0 = AExit # rest" by blast
    from preview_script_body obtain ys where y: "preview_script cf = ys @ [AExit]"
      "AExit \<notin> set ys" "sounds_of ys = created cf"
      by blast
    from s(2) r y(1) have "acts (trace c) @ AExit # rest = ys @ [AExit]" by simp
    from last_action [OF this y(2)] have a: "acts (trace c) = ys" "rest = []" by simp_all
    from a(1) y(3) sounds_acts_preview [OF 2] have "received (trace c) = created cf" by simp
    moreover from s(1) r a(2) have "producers c = [[AExit]]"
      by (cases "producers c") simp_all
    ultimately show ?thesis by simp
  qed
  from 7 have 9: "halted c = Some 0 \<longrightarrow> received (trace c) = created cf \<and> producers c = [[AExit]]"
    by blast
  show ?thesis by (intro conjI 1 2 5 6 9)
qed

text \<open>
  Claim C9 fails on the code. \<^verbatim>\<open>thames --query cafe rain\<close>, one sound matching each term:
  for each query \<^verbatim>\<open>main\<close> starts a printing goroutine and hands it the items over an
  unbuffered channel, and it calls \<^verbatim>\<open>os.Exit(0)\<close> as soon as the last item has been
  received. Nothing makes \<^verbatim>\<open>main\<close> wait for a printing goroutine to write its line (the
  pipeline of the other modes waits for its players with \<^verbatim>\<open>wg.Wait()\<close>). In the run where
  \<^verbatim>\<open>main\<close> reaches the exit before the printing goroutines have run, the process exits
  with code 0, both items have been received, each printing goroutine still holds its
  item, no line has been printed, and none can be any more.
\<close>

theorem exit_before_lines_printed:
  "map_option (\<lambda>c. (halted c, received (trace c), printed (trace c), printers c))
     (run ex_preview (init ex_preview ex_world) ex_preview_early)
   = Some (Some 0, [ex_cafe, ex_rain], [], [Some ex_cafe, Some ex_rain])
   \<and> run ex_preview (init ex_preview ex_world) (ex_preview_early @ [LPrint 0]) = None
   \<and> run ex_preview (init ex_preview ex_world) (ex_preview_early @ [LPrint 1]) = None"
  by (simp add: ex_preview_early_def eval_defs enumerate_eq_zip proj_defs ex_db_def ex_join_def
      ex_cafe_def ex_rain_def)

end
